theory Spec2Isabelle
  imports Main "HOL-Library.AList" "HOL-Library.Multiset"
begin

section \<open>Python values shared by the two modules\<close>

text \<open>
  The exceptions of \<^verbatim>\<open>exceptions.py\<close> and the built-in ones the code raises or
  lets escape. A function of the model that can raise returns its exception as a value.
\<close>

datatype exn =
    CycleException
  | StopInitException
  | StopIteration
  | KeyError
  | IndexError
  | TypeError
  | Exception string

text \<open>
  Units are Python objects compared by identity; the model names them by a value of an
  arbitrary type \<open>'u\<close>. The attributes the iterator reads from a node
  (\<^verbatim>\<open>node.after\<close>, \<^verbatim>\<open>node.before\<close>, \<^verbatim>\<open>node.belongs\<close>,
  \<^verbatim>\<open>parent.exclusive\<close>) live in a heap that maps a unit to its attribute record.
  The record is extensible, so a \<^verbatim>\<open>ConfigUnit\<close> (further below) is a node as well.
\<close>

record 'u node =
  unit_after :: "'u list"
  unit_before :: "'u list"
  belongs :: "'u list"
  exclusive :: bool

type_synonym ('u, 'm) heap = "'u \<Rightarrow> ('u, 'm) node_scheme"

subsection \<open>Python sets and \<^verbatim>\<open>defaultdict(set)\<close>\<close>

text \<open>
  A Python \<^verbatim>\<open>set\<close> is kept as a duplicate-free list. The order in which a
  \<^verbatim>\<open>for\<close> loop visits a set is not fixed by the language, so every function that
  iterates over a set takes the visiting order \<open>ord\<close> as a parameter; the theorems hold
  for every \<open>ord\<close> that returns a rearrangement of its argument.
\<close>

type_synonym 'u pyset = "'u list"

definition set_add :: "'u pyset \<Rightarrow> 'u \<Rightarrow> 'u pyset" where
  "set_add s x = (if x \<in> set s then s else s @ [x])"

definition iteration_order :: "('u list \<Rightarrow> 'u list) \<Rightarrow> bool" where
  "iteration_order ord = (\<forall>xs. mset (ord xs) = mset xs)"

text \<open>
  A \<^verbatim>\<open>defaultdict(set)\<close> is an association list in insertion order (the order
  \<^verbatim>\<open>items()\<close> follows). Reading \<^verbatim>\<open>d[k]\<close> for a missing key inserts an empty
  set: \<open>dd_touch\<close> is that side effect, \<open>dd_get\<close> the value read.
  \<^verbatim>\<open>d[k] = v\<close> is \<open>AList.update\<close> (in place, or appended), \<^verbatim>\<open>del d[k]\<close> is
  \<open>AList.delete\<close>.
\<close>

type_synonym 'u setdict = "('u \<times> 'u pyset) list"

definition dd_get :: "'u setdict \<Rightarrow> 'u \<Rightarrow> 'u pyset" where
  "dd_get d k = (case map_of d k of None \<Rightarrow> [] | Some v \<Rightarrow> v)"

definition dd_touch :: "'u setdict \<Rightarrow> 'u \<Rightarrow> 'u setdict" where
  "dd_touch d k = (if k \<in> fst ` set d then d else d @ [(k, [])])"

definition dd_add :: "'u setdict \<Rightarrow> 'u \<Rightarrow> 'u \<Rightarrow> 'u setdict" where
  \<comment> \<open>\<^verbatim>\<open>d[k].add(x)\<close>\<close>
  "dd_add d k x = AList.update k (set_add (dd_get d k) x) d"

definition dd_discard :: "'u setdict \<Rightarrow> 'u \<Rightarrow> 'u \<Rightarrow> 'u setdict" where
  \<comment> \<open>\<^verbatim>\<open>try: d[k].remove(x) except KeyError: pass\<close>, the read of \<^verbatim>\<open>d[k]\<close> included\<close>
  "dd_discard d k x = AList.update k (removeAll x (dd_get d k)) (dd_touch d k)"

definition dd_prune :: "'u setdict \<Rightarrow> 'u \<Rightarrow> 'u setdict" where
  \<comment> \<open>\<^verbatim>\<open>if len(d[k]) == 0: del d[k]\<close>\<close>
  "dd_prune d k = (if dd_get d k = [] then AList.delete k d else d)"

section \<open>The iterator of \<^verbatim>\<open>kahn.py\<close>\<close>

record 'u kahn =
  after :: "'u setdict"
  lst :: "'u list"
  stack :: "'u list"
  before :: "'u setdict"
  nodes :: "'u pyset"

definition empty_kahn :: "'u kahn" where
  "empty_kahn = \<lparr>after = [], lst = [], stack = [], before = [], nodes = []\<rparr>"

subsection \<open>\<^verbatim>\<open>add_node\<close>\<close>

text \<open>Each statement of the method after its early return is one function on the iterator.\<close>

definition register_node :: "'u kahn \<Rightarrow> 'u \<Rightarrow> 'u list \<Rightarrow> 'u setdict \<Rightarrow> 'u setdict" where
  \<comment> \<open>\<^verbatim>\<open>for unit in rel: if unit in self.nodes and node not in self.lst: d[unit].add(node)\<close>\<close>
  "register_node it node rel d =
     fold (\<lambda>unit d. if unit \<in> set (nodes it) \<and> node \<notin> set (lst it)
                      then dd_add d unit node else d) rel d"

definition note_after :: "('u, 'm) heap \<Rightarrow> 'u \<Rightarrow> 'u kahn \<Rightarrow> 'u kahn" where
  \<comment> \<open>the loop over \<^verbatim>\<open>node.after\<close>, which fills \<^verbatim>\<open>self.before\<close>\<close>
  "note_after h node it = it\<lparr>before := register_node it node (unit_after (h node)) (before it)\<rparr>"

definition note_before :: "('u, 'm) heap \<Rightarrow> 'u \<Rightarrow> 'u kahn \<Rightarrow> 'u kahn" where
  \<comment> \<open>the loop over \<^verbatim>\<open>node.before\<close>, which fills \<^verbatim>\<open>self.after\<close>\<close>
  "note_before h node it = it\<lparr>after := register_node it node (unit_before (h node)) (after it)\<rparr>"

definition set_pending :: "('u, 'm) heap \<Rightarrow> 'u \<Rightarrow> 'u kahn \<Rightarrow> 'u kahn" where
  \<comment> \<open>\<^verbatim>\<open>if len(node.after) > 0: self.after[node] = set(filter(..., node.after))\<close>\<close>
  "set_pending h node it =
     (if unit_after (h node) \<noteq> []
      then it\<lparr>after := AList.update node
                 (remdups (filter (\<lambda>x. x \<in> set (nodes it) \<and> x \<notin> set (lst it))
                    (unit_after (h node)))) (after it)\<rparr>
      else it)"

definition set_dependents :: "('u, 'm) heap \<Rightarrow> 'u \<Rightarrow> 'u kahn \<Rightarrow> 'u kahn" where
  \<comment> \<open>\<^verbatim>\<open>if len(node.before) > 0: self.before[node] = set(filter(..., node.before))\<close>\<close>
  "set_dependents h node it =
     (if unit_before (h node) \<noteq> []
      then it\<lparr>before := AList.update node
                 (remdups (filter (\<lambda>x. x \<in> set (nodes it)) (unit_before (h node))))
                 (before it)\<rparr>
      else it)"

definition push_ready :: "('u, 'm) heap \<Rightarrow> 'u \<Rightarrow> 'u kahn \<Rightarrow> 'u kahn" where
  \<comment> \<open>\<^verbatim>\<open>if len(node.after) == 0 or all(after in self.lst for after in self.after[node])\<close>;
      when the second disjunct is evaluated the key \<^verbatim>\<open>node\<close> has just been assigned\<close>
  "push_ready h node it =
     (if unit_after (h node) = [] \<or> list_all (\<lambda>a. a \<in> set (lst it)) (dd_get (after it) node)
      then it\<lparr>stack := stack it @ [node]\<rparr>
      else it)"

definition add_known :: "'u \<Rightarrow> 'u kahn \<Rightarrow> 'u kahn" where
  "add_known node it = it\<lparr>nodes := set_add (nodes it) node\<rparr>"

definition cleanup_stack :: "'u kahn \<Rightarrow> 'u kahn" where
  \<comment> \<open>the loop over the stack reads \<^verbatim>\<open>self.after[stack_node]\<close> (inserting missing keys)
      and collects \<^verbatim>\<open>nodes_with_new_dependencys\<close>; each collected node is then removed
      from the stack, first occurrence first\<close>
  "cleanup_stack it =
     it\<lparr>after := fold (\<lambda>stack_node d. dd_touch d stack_node) (stack it) (after it),
        stack := fold remove1
                   (filter (\<lambda>stack_node. dd_get (after it) stack_node \<noteq> []) (stack it))
                   (stack it)\<rparr>"

definition add_node :: "('u, 'm) heap \<Rightarrow> 'u \<Rightarrow> 'u kahn \<Rightarrow> 'u kahn" where
  "add_node h node it =
     (if node \<in> set (lst it) then it
      else cleanup_stack (add_known node (push_ready h node (set_dependents h node
             (set_pending h node (note_before h node (note_after h node it)))))))"

definition KahnIterator :: "('u, 'm) heap \<Rightarrow> 'u list \<Rightarrow> 'u kahn" where
  \<comment> \<open>\<^verbatim>\<open>__init__\<close>\<close>
  "KahnIterator h units = fold (add_node h) units empty_kahn"

subsection \<open>\<^verbatim>\<open>remove_node\<close>\<close>

definition unregister_node :: "'u \<Rightarrow> 'u list \<Rightarrow> 'u setdict \<Rightarrow> 'u setdict" where
  \<comment> \<open>\<^verbatim>\<open>for unit in rel: try: d[unit].remove(node) ...; if len(d[unit]) == 0: del d[unit]\<close>\<close>
  "unregister_node node rel d = fold (\<lambda>unit d. dd_prune (dd_discard d unit node) unit) rel d"

definition drop_bookkeeping :: "('u, 'm) heap \<Rightarrow> 'u \<Rightarrow> 'u kahn \<Rightarrow> 'u kahn" where
  \<comment> \<open>the two loops, the two guarded \<^verbatim>\<open>del\<close> and the guarded \<^verbatim>\<open>self.stack.remove(node)\<close>;
      the loop over \<^verbatim>\<open>node.after\<close> changes \<^verbatim>\<open>self.before\<close> only, the one over
      \<^verbatim>\<open>node.before\<close> \<^verbatim>\<open>self.after\<close> only\<close>
  "drop_bookkeeping h node it =
     it\<lparr>before := AList.delete node (unregister_node node (unit_after (h node)) (before it)),
        after := AList.delete node (unregister_node node (unit_before (h node)) (after it)),
        stack := remove1 node (stack it)\<rparr>"

definition rescan_step :: "'u \<Rightarrow> 'u kahn \<Rightarrow> 'u kahn" where
  \<comment> \<open>the body of the closing loop of \<^verbatim>\<open>remove_node\<close>; the \<^verbatim>\<open>KeyError\<close> branch
      cannot be taken on a \<^verbatim>\<open>defaultdict\<close>\<close>
  "rescan_step node it =
     (if node \<in> set (lst it) then it
      else if dd_get (after it) node = []
           then it\<lparr>after := dd_touch (after it) node, stack := stack it @ [node]\<rparr>
           else it)"

definition rescan :: "('u list \<Rightarrow> 'u list) \<Rightarrow> 'u kahn \<Rightarrow> 'u kahn" where
  \<comment> \<open>\<^verbatim>\<open>for node in self.nodes: ...\<close>\<close>
  "rescan ord it = fold rescan_step (ord (nodes it)) it"

definition forget_node :: "('u list \<Rightarrow> 'u list) \<Rightarrow> 'u \<Rightarrow> 'u kahn \<Rightarrow> exn option \<times> 'u kahn" where
  \<comment> \<open>\<^verbatim>\<open>self.nodes.remove(node)\<close>, which raises \<^verbatim>\<open>KeyError\<close> for a node that is not in the
      set, and the closing loop\<close>
  "forget_node ord node it =
     (if node \<notin> set (nodes it) then (Some KeyError, it)
      else (None, rescan ord (it\<lparr>nodes := removeAll node (nodes it)\<rparr>)))"

definition remove_node ::
  "('u list \<Rightarrow> 'u list) \<Rightarrow> ('u, 'm) heap \<Rightarrow> 'u \<Rightarrow> 'u kahn \<Rightarrow> exn option \<times> 'u kahn" where
  \<comment> \<open>the first component is the exception raised, if any; the iterator is returned as
      the raise leaves it\<close>
  "remove_node ord h node it =
     (if node \<in> set (lst it)
      then (Some (Exception ''Cannot remove unit as it was already run''), it)
      else forget_node ord node (drop_bookkeeping h node it))"

subsection \<open>\<^verbatim>\<open>__next__\<close>\<close>

definition rescue_promote :: "'u kahn \<Rightarrow> 'u kahn" where
  \<comment> \<open>\<^verbatim>\<open>for unit, units in self.after.items(): if len(units) == 0: self.stack.append(unit)\<close>\<close>
  "rescue_promote it =
     it\<lparr>stack := stack it @ map fst (filter (\<lambda>(unit, units). units = []) (after it))\<rparr>"

definition rescue_delete :: "'u kahn \<Rightarrow> 'u kahn" where
  \<comment> \<open>\<^verbatim>\<open>for unit in self.stack: del self.after[unit]\<close>\<close>
  "rescue_delete it = it\<lparr>after := fold AList.delete (stack it) (after it)\<rparr>"

definition refill :: "'u kahn \<Rightarrow> exn + 'u kahn" where
  \<comment> \<open>the first block of \<^verbatim>\<open>__next__\<close>: the rescue pass over \<^verbatim>\<open>self.after\<close> when
      the stack is empty, and the two raises\<close>
  "refill it =
     (if stack it = [] then
        (if after it \<noteq> [] \<and> list_ex (\<lambda>x. x \<noteq> []) (map snd (after it)) then
           (if stack (rescue_delete (rescue_promote it)) = [] then Inl CycleException
            else Inr (rescue_delete (rescue_promote it)))
         else Inl StopIteration)
      else Inr it)"

definition promote :: "'u \<Rightarrow> 'u kahn \<Rightarrow> 'u kahn" where
  \<comment> \<open>\<^verbatim>\<open>if len(self.after[other]) == 0: del self.after[other]; self.stack.append(other)\<close>\<close>
  "promote other it =
     (if dd_get (after it) other = []
      then it\<lparr>after := AList.delete other (after it), stack := stack it @ [other]\<rparr>
      else it)"

definition release_step :: "'u \<Rightarrow> 'u \<Rightarrow> 'u kahn \<Rightarrow> 'u kahn" where
  \<comment> \<open>the body of \<^verbatim>\<open>for other in self.before[node]\<close>\<close>
  "release_step node other it = promote other (it\<lparr>after := dd_discard (after it) other node\<rparr>)"

definition release :: "('u list \<Rightarrow> 'u list) \<Rightarrow> 'u \<Rightarrow> 'u kahn \<Rightarrow> 'u kahn" where
  "release ord node it =
     fold (release_step node) (ord (dd_get (before it) node))
       (it\<lparr>before := dd_touch (before it) node\<rparr>)"

definition pop_release :: "('u list \<Rightarrow> 'u list) \<Rightarrow> 'u kahn \<Rightarrow> ('u \<times> 'u kahn) option" where
  \<comment> \<open>\<^verbatim>\<open>node = self.stack.popleft()\<close> and the loop that releases the nodes waiting for it\<close>
  "pop_release ord it =
     (case stack it of
        [] \<Rightarrow> None
      | node # rest \<Rightarrow> Some (node, release ord node (it\<lparr>stack := rest\<rparr>)))"

definition conflict :: "('u, 'm) heap \<Rightarrow> 'u list \<Rightarrow> 'u \<Rightarrow> bool" where
  \<comment> \<open>some \<^verbatim>\<open>parent in node.belongs\<close> is exclusive and has a member among the produced units\<close>
  "conflict h produced node =
     list_ex (\<lambda>parent. exclusive (h parent)
                \<and> list_ex (\<lambda>unit. parent \<in> set (belongs (h unit))) produced)
       (belongs (h node))"

partial_function (option) kahn_next ::
  "('u list \<Rightarrow> 'u list) \<Rightarrow> ('u, 'm) heap \<Rightarrow> 'u kahn \<Rightarrow> ((exn + 'u) \<times> 'u kahn) option" where
  "kahn_next ord h it =
     (case refill it of
        Inl e \<Rightarrow> Some (Inl e, it)
      | Inr it1 \<Rightarrow>
          (case pop_release ord it1 of
             None \<Rightarrow> Some (Inl IndexError, it1)
           | Some (node, it2) \<Rightarrow>
               if conflict h (lst it2) node then kahn_next ord h it2
               else Some (Inr node, it2\<lparr>lst := lst it2 @ [node]\<rparr>)))"

subsection \<open>Driving the iterator\<close>

text \<open>
  A caller's calls on one iterator, in order. \<open>run_ops\<close> performs them and collects what each
  \<^verbatim>\<open>next()\<close> returned or raised; an exception of \<^verbatim>\<open>remove_node\<close> is taken to be caught
  by the caller, the iterator staying as the raise left it. The result is \<open>None\<close> when a call
  of \<^verbatim>\<open>next()\<close> does not return.
\<close>

datatype 'u op = AddNode 'u | RemoveNode 'u | Next

fun run_ops ::
  "('u list \<Rightarrow> 'u list) \<Rightarrow> ('u, 'm) heap \<Rightarrow> 'u op list \<Rightarrow> 'u kahn
     \<Rightarrow> ((exn + 'u) list \<times> 'u kahn) option" where
  "run_ops ord h [] it = Some ([], it)"
| "run_ops ord h (AddNode n # ops) it = run_ops ord h ops (add_node h n it)"
| "run_ops ord h (RemoveNode n # ops) it = run_ops ord h ops (snd (remove_node ord h n it))"
| "run_ops ord h (Next # ops) it =
     (case kahn_next ord h it of
        None \<Rightarrow> None
      | Some (r, it') \<Rightarrow> map_option (\<lambda>(rs, it''). (r # rs, it'')) (run_ops ord h ops it'))"

subsection \<open>The nodes of \<^verbatim>\<open>test_kahn.py\<close>\<close>

datatype abcd = Ua | Ub | Uc | Ud

text \<open>
  \<^verbatim>\<open>a = Node("a", before=[], after=[])\<close>, \<^verbatim>\<open>b = Node("b", before=[a], after=[])\<close>,
  \<^verbatim>\<open>c = Node("c", before=[a], after=[b])\<close>, \<^verbatim>\<open>d = Node("d", before=[c], after=[])\<close>,
  as \<^verbatim>\<open>test_kahn_iterator_add_node\<close> builds them: each relation is listed on one side only.
\<close>

fun test_nodes :: "abcd \<Rightarrow> abcd node" where
  "test_nodes Ua = \<lparr>unit_after = [], unit_before = [], belongs = [], exclusive = False\<rparr>"
| "test_nodes Ub = \<lparr>unit_after = [], unit_before = [Ua], belongs = [], exclusive = False\<rparr>"
| "test_nodes Uc = \<lparr>unit_after = [Ub], unit_before = [Ua], belongs = [], exclusive = False\<rparr>"
| "test_nodes Ud = \<lparr>unit_after = [], unit_before = [Uc], belongs = [], exclusive = False\<rparr>"

text \<open>
  The same four units with every relation listed on both sides, as registration through
  \<^verbatim>\<open>ConfigUnit.add_unit\<close> leaves them.
\<close>

fun closed_nodes :: "abcd \<Rightarrow> abcd node" where
  "closed_nodes Ua = \<lparr>unit_after = [Ub, Uc], unit_before = [], belongs = [], exclusive = False\<rparr>"
| "closed_nodes Ub = \<lparr>unit_after = [], unit_before = [Ua, Uc], belongs = [], exclusive = False\<rparr>"
| "closed_nodes Uc = \<lparr>unit_after = [Ub, Ud], unit_before = [Ua], belongs = [], exclusive = False\<rparr>"
| "closed_nodes Ud = \<lparr>unit_after = [], unit_before = [Uc], belongs = [], exclusive = False\<rparr>"

text \<open>
  Three units in a cycle, \<open>a\<close> after \<open>b\<close>, \<open>b\<close> after \<open>c\<close>, \<open>c\<close> after \<open>a\<close>, each relation
  recorded on both sides; \<open>Ud\<close> takes no part.
\<close>

fun cycle_nodes :: "abcd \<Rightarrow> abcd node" where
  "cycle_nodes Ua = \<lparr>unit_after = [Ub], unit_before = [Uc], belongs = [], exclusive = False\<rparr>"
| "cycle_nodes Ub = \<lparr>unit_after = [Uc], unit_before = [Ua], belongs = [], exclusive = False\<rparr>"
| "cycle_nodes Uc = \<lparr>unit_after = [Ua], unit_before = [Ub], belongs = [], exclusive = False\<rparr>"
| "cycle_nodes Ud = \<lparr>unit_after = [], unit_before = [], belongs = [], exclusive = False\<rparr>"

text \<open>
  The nodes of \<^verbatim>\<open>test_kahn_iterator_cycle\<close>: \<^verbatim>\<open>a = Node("a", before=[], after=[])\<close>,
  \<^verbatim>\<open>b = Node("b", before=[a], after=[])\<close>, \<^verbatim>\<open>c = Node("c", before=[b], after=[a])\<close>.
\<close>

fun test_cycle_nodes :: "abcd \<Rightarrow> abcd node" where
  "test_cycle_nodes Ua = \<lparr>unit_after = [], unit_before = [], belongs = [], exclusive = False\<rparr>"
| "test_cycle_nodes Ub = \<lparr>unit_after = [], unit_before = [Ua], belongs = [], exclusive = False\<rparr>"
| "test_cycle_nodes Uc = \<lparr>unit_after = [Ua], unit_before = [Ub], belongs = [], exclusive = False\<rparr>"
| "test_cycle_nodes Ud = \<lparr>unit_after = [], unit_before = [], belongs = [], exclusive = False\<rparr>"

section \<open>The set objects of the iterator and \<^verbatim>\<open>copy\<close>\<close>

text \<open>
  The values of \<^verbatim>\<open>self.after\<close> and \<^verbatim>\<open>self.before\<close> are \<^verbatim>\<open>set\<close> objects. The model above
  keeps each set inside its dictionary, which is what one iterator on its own does. Two
  iterators can hold the same set object, so for \<^verbatim>\<open>copy\<close> the set objects live in a store,
  a list indexed by address, and a dictionary maps a key to the address of its set.
  \<^verbatim>\<open>d[k].add(x)\<close> and \<^verbatim>\<open>d[k].remove(x)\<close> change the object in the store; \<^verbatim>\<open>d[k] = set(...)\<close>
  stores a new object; \<^verbatim>\<open>del d[k]\<close> changes the dictionary only. The functions below are
  those of the sections on \<^verbatim>\<open>add_node\<close> and \<^verbatim>\<open>__next__\<close>, statement by statement, on an
  iterator paired with the store.
\<close>

type_synonym addr = nat

type_synonym 'u objects = "'u pyset list"

type_synonym 'u refdict = "('u \<times> addr) list"

record 'u kahn_ref =
  after_ref :: "'u refdict"
  lst_ref :: "'u list"
  stack_ref :: "'u list"
  before_ref :: "'u refdict"
  nodes_ref :: "'u pyset"

definition empty_kahn_ref :: "'u kahn_ref" where
  "empty_kahn_ref = \<lparr>after_ref = [], lst_ref = [], stack_ref = [], before_ref = [], nodes_ref = []\<rparr>"

definition rd_get :: "'u refdict \<Rightarrow> 'u objects \<Rightarrow> 'u \<Rightarrow> 'u pyset" where
  "rd_get d objs k = (case map_of d k of None \<Rightarrow> [] | Some a \<Rightarrow> objs ! a)"

fun rd_touch :: "'u \<Rightarrow> 'u refdict \<times> 'u objects \<Rightarrow> 'u refdict \<times> 'u objects" where
  \<comment> \<open>reading \<^verbatim>\<open>d[k]\<close>: a missing key gets a new empty set\<close>
  "rd_touch k (d, objs) =
     (if k \<in> fst ` set d then (d, objs) else (d @ [(k, length objs)], objs @ [[]]))"

fun rd_change_at :: "('u pyset \<Rightarrow> 'u pyset) \<Rightarrow> 'u \<Rightarrow> 'u refdict \<times> 'u objects \<Rightarrow> 'u refdict \<times> 'u objects" where
  "rd_change_at f k (d, objs) =
     (case map_of d k of None \<Rightarrow> (d, objs) | Some a \<Rightarrow> (d, objs[a := f (objs ! a)]))"

definition rd_add :: "'u \<Rightarrow> 'u \<Rightarrow> 'u refdict \<times> 'u objects \<Rightarrow> 'u refdict \<times> 'u objects" where
  \<comment> \<open>\<^verbatim>\<open>d[k].add(x)\<close>\<close>
  "rd_add k x s = rd_change_at (\<lambda>v. set_add v x) k (rd_touch k s)"

definition rd_discard :: "'u \<Rightarrow> 'u \<Rightarrow> 'u refdict \<times> 'u objects \<Rightarrow> 'u refdict \<times> 'u objects" where
  \<comment> \<open>\<^verbatim>\<open>try: d[k].remove(x) except KeyError: pass\<close>\<close>
  "rd_discard k x s = rd_change_at (removeAll x) k (rd_touch k s)"

fun rd_assign :: "'u \<Rightarrow> 'u pyset \<Rightarrow> 'u refdict \<times> 'u objects \<Rightarrow> 'u refdict \<times> 'u objects" where
  \<comment> \<open>\<^verbatim>\<open>d[k] = set(...)\<close>: a new set object\<close>
  "rd_assign k v (d, objs) = (AList.update k (length objs) d, objs @ [v])"

fun on_after ::
  "('u refdict \<times> 'u objects \<Rightarrow> 'u refdict \<times> 'u objects) \<Rightarrow> 'u kahn_ref \<times> 'u objects
     \<Rightarrow> 'u kahn_ref \<times> 'u objects" where
  \<comment> \<open>a statement that works on \<^verbatim>\<open>self.after\<close>\<close>
  "on_after f (it, objs) = (case f (after_ref it, objs) of (d, objs') \<Rightarrow> (it\<lparr>after_ref := d\<rparr>, objs'))"

fun on_before ::
  "('u refdict \<times> 'u objects \<Rightarrow> 'u refdict \<times> 'u objects) \<Rightarrow> 'u kahn_ref \<times> 'u objects
     \<Rightarrow> 'u kahn_ref \<times> 'u objects" where
  \<comment> \<open>a statement that works on \<^verbatim>\<open>self.before\<close>\<close>
  "on_before f (it, objs) = (case f (before_ref it, objs) of (d, objs') \<Rightarrow> (it\<lparr>before_ref := d\<rparr>, objs'))"

subsection \<open>\<^verbatim>\<open>add_node\<close> on the store\<close>

fun register_node_ref ::
  "'u \<Rightarrow> 'u list \<Rightarrow> 'u kahn_ref \<Rightarrow> 'u refdict \<times> 'u objects \<Rightarrow> 'u refdict \<times> 'u objects" where
  \<comment> \<open>\<^verbatim>\<open>for unit in rel: if unit in self.nodes and node not in self.lst: d[unit].add(node)\<close>\<close>
  "register_node_ref node [] it s = s"
| "register_node_ref node (unit # rel) it s =
     register_node_ref node rel it
       (if unit \<in> set (nodes_ref it) \<and> node \<notin> set (lst_ref it) then rd_add unit node s else s)"

fun note_after_ref :: "('u, 'm) heap \<Rightarrow> 'u \<Rightarrow> 'u kahn_ref \<times> 'u objects \<Rightarrow> 'u kahn_ref \<times> 'u objects" where
  "note_after_ref h node (it, objs) =
     on_before (register_node_ref node (unit_after (h node)) it) (it, objs)"

fun note_before_ref :: "('u, 'm) heap \<Rightarrow> 'u \<Rightarrow> 'u kahn_ref \<times> 'u objects \<Rightarrow> 'u kahn_ref \<times> 'u objects" where
  "note_before_ref h node (it, objs) =
     on_after (register_node_ref node (unit_before (h node)) it) (it, objs)"

fun set_pending_ref :: "('u, 'm) heap \<Rightarrow> 'u \<Rightarrow> 'u kahn_ref \<times> 'u objects \<Rightarrow> 'u kahn_ref \<times> 'u objects" where
  \<comment> \<open>\<^verbatim>\<open>if len(node.after) > 0: self.after[node] = set(filter(..., node.after))\<close>\<close>
  "set_pending_ref h node (it, objs) =
     (if unit_after (h node) \<noteq> []
      then on_after (rd_assign node
             (remdups (filter (\<lambda>x. x \<in> set (nodes_ref it) \<and> x \<notin> set (lst_ref it))
                (unit_after (h node))))) (it, objs)
      else (it, objs))"

fun set_dependents_ref :: "('u, 'm) heap \<Rightarrow> 'u \<Rightarrow> 'u kahn_ref \<times> 'u objects \<Rightarrow> 'u kahn_ref \<times> 'u objects" where
  \<comment> \<open>\<^verbatim>\<open>if len(node.before) > 0: self.before[node] = set(filter(..., node.before))\<close>\<close>
  "set_dependents_ref h node (it, objs) =
     (if unit_before (h node) \<noteq> []
      then on_before (rd_assign node
             (remdups (filter (\<lambda>x. x \<in> set (nodes_ref it)) (unit_before (h node))))) (it, objs)
      else (it, objs))"

fun push_ready_ref :: "('u, 'm) heap \<Rightarrow> 'u \<Rightarrow> 'u kahn_ref \<times> 'u objects \<Rightarrow> 'u kahn_ref \<times> 'u objects" where
  "push_ready_ref h node (it, objs) =
     (if unit_after (h node) = []
         \<or> list_all (\<lambda>a. a \<in> set (lst_ref it)) (rd_get (after_ref it) objs node)
      then (it\<lparr>stack_ref := stack_ref it @ [node]\<rparr>, objs)
      else (it, objs))"

fun add_known_ref :: "'u \<Rightarrow> 'u kahn_ref \<times> 'u objects \<Rightarrow> 'u kahn_ref \<times> 'u objects" where
  "add_known_ref node (it, objs) = (it\<lparr>nodes_ref := set_add (nodes_ref it) node\<rparr>, objs)"

fun drop_waiting_ref :: "'u kahn_ref \<times> 'u objects \<Rightarrow> 'u kahn_ref \<times> 'u objects" where
  \<comment> \<open>the second loop of the cleanup: the stack nodes with a non-empty \<^verbatim>\<open>self.after\<close> entry
      are removed from the stack\<close>
  "drop_waiting_ref (it, objs) =
     (it\<lparr>stack_ref := fold remove1
           (filter (\<lambda>stack_node. rd_get (after_ref it) objs stack_node \<noteq> []) (stack_ref it))
           (stack_ref it)\<rparr>, objs)"

fun cleanup_stack_ref :: "'u kahn_ref \<times> 'u objects \<Rightarrow> 'u kahn_ref \<times> 'u objects" where
  \<comment> \<open>the first loop reads \<^verbatim>\<open>self.after[stack_node]\<close> for every stack node\<close>
  "cleanup_stack_ref (it, objs) =
     drop_waiting_ref (on_after (fold rd_touch (stack_ref it)) (it, objs))"

fun add_node_ref :: "('u, 'm) heap \<Rightarrow> 'u \<Rightarrow> 'u kahn_ref \<times> 'u objects \<Rightarrow> 'u kahn_ref \<times> 'u objects" where
  "add_node_ref h node (it, objs) =
     (if node \<in> set (lst_ref it) then (it, objs)
      else cleanup_stack_ref (add_known_ref node (push_ready_ref h node (set_dependents_ref h node
             (set_pending_ref h node (note_before_ref h node (note_after_ref h node (it, objs))))))))"

definition KahnIterator_ref ::
  "('u, 'm) heap \<Rightarrow> 'u list \<Rightarrow> 'u objects \<Rightarrow> 'u kahn_ref \<times> 'u objects" where
  \<comment> \<open>\<^verbatim>\<open>KahnIterator(units)\<close>, built in the given store\<close>
  "KahnIterator_ref h units objs = fold (add_node_ref h) units (empty_kahn_ref, objs)"

subsection \<open>\<^verbatim>\<open>copy\<close>\<close>

text \<open>
  \<^verbatim>\<open>self.stack.copy()\<close>, \<^verbatim>\<open>self.lst.copy()\<close> and \<^verbatim>\<open>self.nodes.copy()\<close> make new containers of
  the same units. \<^verbatim>\<open>self.before.copy()\<close> and \<^verbatim>\<open>self.after.copy()\<close> make new dictionaries
  with the same keys and the same values: the addresses are copied, the set objects are
  not. Nothing is added to the store.
\<close>

definition copy_ref :: "'u kahn_ref \<Rightarrow> 'u kahn_ref" where
  "copy_ref self =
     empty_kahn_ref\<lparr>stack_ref := stack_ref self, before_ref := before_ref self,
                    after_ref := after_ref self, lst_ref := lst_ref self,
                    nodes_ref := nodes_ref self\<rparr>"

subsection \<open>\<^verbatim>\<open>__next__\<close> on the store\<close>

fun rescue_promote_ref :: "'u kahn_ref \<times> 'u objects \<Rightarrow> 'u kahn_ref \<times> 'u objects" where
  "rescue_promote_ref (it, objs) =
     (it\<lparr>stack_ref := stack_ref it
            @ map fst (filter (\<lambda>(unit, a). objs ! a = []) (after_ref it))\<rparr>, objs)"

fun rescue_delete_ref :: "'u kahn_ref \<times> 'u objects \<Rightarrow> 'u kahn_ref \<times> 'u objects" where
  "rescue_delete_ref (it, objs) =
     (it\<lparr>after_ref := fold AList.delete (stack_ref it) (after_ref it)\<rparr>, objs)"

fun refill_ref :: "'u kahn_ref \<times> 'u objects \<Rightarrow> exn + 'u kahn_ref \<times> 'u objects" where
  "refill_ref (it, objs) =
     (if stack_ref it = [] then
        (if after_ref it \<noteq> [] \<and> list_ex (\<lambda>(unit, a). objs ! a \<noteq> []) (after_ref it) then
           (if stack_ref (fst (rescue_delete_ref (rescue_promote_ref (it, objs)))) = []
            then Inl CycleException
            else Inr (rescue_delete_ref (rescue_promote_ref (it, objs))))
         else Inl StopIteration)
      else Inr (it, objs))"

fun promote_ref :: "'u \<Rightarrow> 'u kahn_ref \<times> 'u objects \<Rightarrow> 'u kahn_ref \<times> 'u objects" where
  \<comment> \<open>\<^verbatim>\<open>if len(self.after[other]) == 0: del self.after[other]; self.stack.append(other)\<close>\<close>
  "promote_ref other (it, objs) =
     (if rd_get (after_ref it) objs other = []
      then (it\<lparr>after_ref := AList.delete other (after_ref it),
               stack_ref := stack_ref it @ [other]\<rparr>, objs)
      else (it, objs))"

definition release_step_ref :: "'u \<Rightarrow> 'u \<Rightarrow> 'u kahn_ref \<times> 'u objects \<Rightarrow> 'u kahn_ref \<times> 'u objects" where
  \<comment> \<open>the body of \<^verbatim>\<open>for other in self.before[node]\<close>\<close>
  "release_step_ref node other s = promote_ref other (on_after (rd_discard other node) s)"

fun release_all_ref ::
  "('u list \<Rightarrow> 'u list) \<Rightarrow> 'u \<Rightarrow> 'u kahn_ref \<times> 'u objects \<Rightarrow> 'u kahn_ref \<times> 'u objects" where
  "release_all_ref ord node (it, objs) =
     fold (release_step_ref node) (ord (rd_get (before_ref it) objs node)) (it, objs)"

definition release_ref ::
  "('u list \<Rightarrow> 'u list) \<Rightarrow> 'u \<Rightarrow> 'u kahn_ref \<times> 'u objects \<Rightarrow> 'u kahn_ref \<times> 'u objects" where
  "release_ref ord node s = release_all_ref ord node (on_before (rd_touch node) s)"

fun pop_release_ref ::
  "('u list \<Rightarrow> 'u list) \<Rightarrow> 'u kahn_ref \<times> 'u objects \<Rightarrow> ('u \<times> 'u kahn_ref \<times> 'u objects) option" where
  "pop_release_ref ord (it, objs) =
     (case stack_ref it of
        [] \<Rightarrow> None
      | node # rest \<Rightarrow> Some (node, release_ref ord node (it\<lparr>stack_ref := rest\<rparr>, objs)))"

partial_function (option) kahn_next_ref ::
  "('u list \<Rightarrow> 'u list) \<Rightarrow> ('u, 'm) heap \<Rightarrow> 'u kahn_ref \<times> 'u objects
     \<Rightarrow> ((exn + 'u) \<times> 'u kahn_ref \<times> 'u objects) option" where
  "kahn_next_ref ord h s =
     (case refill_ref s of
        Inl e \<Rightarrow> Some (Inl e, s)
      | Inr s1 \<Rightarrow>
          (case pop_release_ref ord s1 of
             None \<Rightarrow> Some (Inl IndexError, s1)
           | Some (node, it2, objs2) \<Rightarrow>
               if conflict h (lst_ref it2) node then kahn_next_ref ord h (it2, objs2)
               else Some (Inr node, it2\<lparr>lst_ref := lst_ref it2 @ [node]\<rparr>, objs2)))"

fun nexts_ref ::
  "nat \<Rightarrow> ('u list \<Rightarrow> 'u list) \<Rightarrow> ('u, 'm) heap \<Rightarrow> 'u kahn_ref \<times> 'u objects
     \<Rightarrow> ((exn + 'u) list \<times> 'u kahn_ref \<times> 'u objects) option" where
  \<comment> \<open>\<open>n\<close> calls of \<^verbatim>\<open>next\<close> on one iterator, each exception caught by the caller\<close>
  "nexts_ref 0 ord h s = Some ([], s)"
| "nexts_ref (Suc n) ord h s =
     (case kahn_next_ref ord h s of
        None \<Rightarrow> None
      | Some (r, s') \<Rightarrow> map_option (\<lambda>(rs, s''). (r # rs, s'')) (nexts_ref n ord h s'))"

definition view :: "'u objects \<Rightarrow> 'u kahn_ref \<Rightarrow> 'u kahn" where
  \<comment> \<open>the state of an iterator as its attributes show it, every set looked up in the store\<close>
  "view objs it =
     \<lparr>after = map (\<lambda>(k, a). (k, objs ! a)) (after_ref it), lst = lst_ref it,
      stack = stack_ref it,
      before = map (\<lambda>(k, a). (k, objs ! a)) (before_ref it), nodes = nodes_ref it\<rparr>"

text \<open>Three units, \<open>c\<close> after \<open>a\<close> and after \<open>b\<close>, recorded on both sides; \<open>d\<close> has no relations.\<close>

fun join_nodes :: "abcd \<Rightarrow> abcd node" where
  "join_nodes Ua = \<lparr>unit_after = [], unit_before = [Uc], belongs = [], exclusive = False\<rparr>"
| "join_nodes Ub = \<lparr>unit_after = [], unit_before = [Uc], belongs = [], exclusive = False\<rparr>"
| "join_nodes Uc = \<lparr>unit_after = [Ua, Ub], unit_before = [], belongs = [], exclusive = False\<rparr>"
| "join_nodes Ud = \<lparr>unit_after = [], unit_before = [], belongs = [], exclusive = False\<rparr>"

text \<open>
  \<^verbatim>\<open>KahnIterator([a, b, c])\<close> on these units, built in an empty store: the store then
  holds \<^verbatim>\<open>before[a]\<close>, \<^verbatim>\<open>after[a]\<close>, \<^verbatim>\<open>before[b]\<close>, \<^verbatim>\<open>after[b]\<close> and \<^verbatim>\<open>after[c]\<close>, in
  this order.
\<close>

definition join_original :: "abcd kahn_ref" where
  "join_original =
     \<lparr>after_ref = [(Ua, 1), (Ub, 3), (Uc, 4)], lst_ref = [], stack_ref = [Ua, Ub],
      before_ref = [(Ua, 0), (Ub, 2)], nodes_ref = [Ua, Ub, Uc]\<rparr>"

definition join_objects :: "abcd objects" where
  "join_objects = [[Uc], [], [Uc], [], [Ua, Ub]]"

section \<open>The engine of \<^verbatim>\<open>config.py\<close>\<close>

subsection \<open>State of a \<^verbatim>\<open>Config\<close>\<close>

text \<open>
  A generator object is named by the unit whose function made it. The values that unit
  functions return or yield, and the final action \<^verbatim>\<open>func\<close>, are Python objects of an
  arbitrary type \<open>'v\<close>; \<open>None\<close> is Python's \<^verbatim>\<open>None\<close>. A \<^verbatim>\<open>dict\<close> is an association list.
  The signal handlers play no part in \<^verbatim>\<open>init\<close>, \<^verbatim>\<open>exit\<close> and \<^verbatim>\<open>add_target\<close> and are
  left out of the record.
\<close>

datatype 'u generator = Generator 'u

record ('u, 'v) config =
  func :: "'v option"
  targets :: "'u list"
  blacklisted_targets :: "'u list"
  variables :: "(string \<times> 'v) list"
  unit_iterator :: "'u kahn"
  ran_units :: "'u list"
  active_units :: "('u \<times> 'u generator option) list"
  entry_point :: "'u option"

subsection \<open>\<^verbatim>\<open>ConfigUnit\<close>\<close>

text \<open>
  What calling a unit's function does is given by its kind, as \<^verbatim>\<open>ConfigUnit.__init__\<close>
  tells them apart with \<^verbatim>\<open>inspect\<close>. A plain function runs on the config and returns a
  value or raises. A generator function comes with its two resumptions, the run up to
  the first \<^verbatim>\<open>yield\<close> and the run after it: each yields a value (\<open>Inr\<close>), ends
  (\<open>Inl StopIteration\<close>) or raises. Calling a coroutine function runs nothing and returns
  a coroutine object; an asynchronous generator cannot be resumed by \<^verbatim>\<open>next()\<close>.
\<close>

datatype ('c, 'v) action =
    Function "'c \<Rightarrow> (exn + 'v option) \<times> 'c"
  | GeneratorFunction "'c \<Rightarrow> (exn + 'v option) \<times> 'c" "'c \<Rightarrow> (exn + 'v option) \<times> 'c"
  | CoroutineFunction 'v
  | AsyncGeneratorFunction

record ('u, 'c, 'v) config_unit = "'u node" +
  contains :: "'u list"
  depends :: "'u list"
  conflicts :: "'u list"
  unit_func :: "('c, 'v) action option"

type_synonym ('u, 'v) units = "'u \<Rightarrow> ('u, ('u, 'v) config, 'v) config_unit"

definition is_async :: "('u, 'c, 'v) config_unit \<Rightarrow> bool" where
  "is_async u =
     (case unit_func u of
        None \<Rightarrow> False
      | Some AsyncGeneratorFunction \<Rightarrow> True
      | Some (CoroutineFunction cv) \<Rightarrow> True
      | Some (GeneratorFunction f g) \<Rightarrow> False
      | Some (Function f) \<Rightarrow> False)"

definition is_generator :: "('u, 'c, 'v) config_unit \<Rightarrow> bool" where
  "is_generator u =
     (case unit_func u of
        None \<Rightarrow> False
      | Some AsyncGeneratorFunction \<Rightarrow> True
      | Some (CoroutineFunction cv) \<Rightarrow> False
      | Some (GeneratorFunction f g) \<Rightarrow> True
      | Some (Function f) \<Rightarrow> False)"

definition is_empty :: "('u, 'c, 'v) config_unit \<Rightarrow> bool" where
  "is_empty u = (unit_func u = None)"

datatype 'u param = NoParam | One 'u | Many "'u list"

definition param_to_list :: "'u param \<Rightarrow> 'u list" where
  \<comment> \<open>\<^verbatim>\<open>_param_to_list\<close>\<close>
  "param_to_list p = (case p of NoParam \<Rightarrow> [] | Many xs \<Rightarrow> xs | One x \<Rightarrow> [x])"

definition ConfigUnit ::
  "'u \<Rightarrow> 'u param \<Rightarrow> 'u param \<Rightarrow> 'u param \<Rightarrow> 'u param \<Rightarrow> 'u param \<Rightarrow> 'u param \<Rightarrow> bool
     \<Rightarrow> ('c, 'v) action option \<Rightarrow> ('u, 'c, 'v) config_unit" where
  \<comment> \<open>\<^verbatim>\<open>ConfigUnit.__init__\<close>; the first argument is the unit \<^verbatim>\<open>ASYNC_UNIT\<close> of
      \<^verbatim>\<open>units/base.py\<close>, the others follow the keyword arguments (name and description
      are not modelled)\<close>
  "ConfigUnit ASYNC_UNIT contains' belongs' depends' before' after' conflicts' exclusive' func' =
     (let self = \<lparr>unit_after = param_to_list after', unit_before = param_to_list before',
                   belongs = param_to_list belongs', exclusive = exclusive',
                   contains = param_to_list contains', depends = param_to_list depends',
                   conflicts = param_to_list conflicts', unit_func = func'\<rparr>
      in if is_async self
         then self\<lparr>depends := depends self @ [ASYNC_UNIT],
                   unit_after := unit_after self @ [ASYNC_UNIT]\<rparr>
         else self)"

subsection \<open>\<^verbatim>\<open>add_target\<close> and \<^verbatim>\<open>blacklist_target\<close>\<close>

definition blacklist_target :: "('u, 'v) units \<Rightarrow> 'u \<Rightarrow> ('u, 'v) config \<Rightarrow> ('u, 'v) config" where
  "blacklist_target h target c =
     c\<lparr>blacklisted_targets := blacklisted_targets c @ [target] @ contains (h target)\<rparr>"

fun exclude_units ::
  "('u list \<Rightarrow> 'u list) \<Rightarrow> ('u, 'v) units \<Rightarrow> 'u \<Rightarrow> 'u list \<Rightarrow> ('u, 'v) config
     \<Rightarrow> exn option \<times> ('u, 'v) config" where
  \<comment> \<open>\<^verbatim>\<open>for other_unit in container.contains: if other_unit != target: ...\<close>; an exception
      of \<^verbatim>\<open>remove_node\<close> ends the loop and is passed on\<close>
  "exclude_units ord h target [] c = (None, c)"
| "exclude_units ord h target (other_unit # rest) c =
     (if other_unit \<noteq> target then
        (case remove_node ord h other_unit (unit_iterator c) of
           (Some e, it) \<Rightarrow> (Some e, c\<lparr>unit_iterator := it\<rparr>)
         | (None, it) \<Rightarrow>
             exclude_units ord h target rest (blacklist_target h other_unit (c\<lparr>unit_iterator := it\<rparr>)))
      else exclude_units ord h target rest c)"

fun exclude_others ::
  "('u list \<Rightarrow> 'u list) \<Rightarrow> ('u, 'v) units \<Rightarrow> 'u \<Rightarrow> 'u list \<Rightarrow> ('u, 'v) config
     \<Rightarrow> exn option \<times> ('u, 'v) config" where
  \<comment> \<open>\<^verbatim>\<open>for container in target.belongs: if container.exclusive is True: ...\<close>\<close>
  "exclude_others ord h target [] c = (None, c)"
| "exclude_others ord h target (container # rest) c =
     (if exclusive (h container) then
        (case exclude_units ord h target (contains (h container)) c of
           (Some e, c') \<Rightarrow> (Some e, c')
         | (None, c') \<Rightarrow> exclude_others ord h target rest c')
      else exclude_others ord h target rest c)"

text \<open>
  \<^verbatim>\<open>add_target\<close> calls itself for every dependency and every contained unit. The first
  argument bounds the depth of these calls: the result is \<open>None\<close> when the bound is
  reached, and otherwise the exception raised, if any, with the config as the call left it.
\<close>

fun add_target ::
  "nat \<Rightarrow> ('u list \<Rightarrow> 'u list) \<Rightarrow> ('u, 'v) units \<Rightarrow> 'u \<Rightarrow> bool \<Rightarrow> ('u, 'v) config
     \<Rightarrow> (exn option \<times> ('u, 'v) config) option"
and add_target_each ::
  "nat \<Rightarrow> ('u list \<Rightarrow> 'u list) \<Rightarrow> ('u, 'v) units \<Rightarrow> 'u list \<Rightarrow> bool \<Rightarrow> ('u, 'v) config
     \<Rightarrow> (exn option \<times> ('u, 'v) config) option" where
  "add_target 0 ord h target force c = None"
| "add_target (Suc n) ord h target force c =
     (if target \<in> set (targets c) then Some (None, c)
      else if target \<in> set (blacklisted_targets c) then Some (None, c)
      else if force \<or> list_ex (\<lambda>container. container \<in> set (targets c)) (belongs (h target)) then
        (case add_target_each n ord h (depends (h target) @ contains (h target)) force
                (c\<lparr>targets := targets c @ [target],
                   unit_iterator := add_node h target (unit_iterator c)\<rparr>) of
           None \<Rightarrow> None
         | Some (Some e, c') \<Rightarrow> Some (Some e, c')
         | Some (None, c') \<Rightarrow> Some (exclude_others ord h target (belongs (h target)) c'))
      else Some (None, c))"
| "add_target_each n ord h [] force c = Some (None, c)"
| "add_target_each n ord h (dependency # rest) force c =
     (case add_target n ord h dependency force c of
        None \<Rightarrow> None
      | Some (Some e, c') \<Rightarrow> Some (Some e, c')
      | Some (None, c') \<Rightarrow> add_target_each n ord h rest force c')"

definition empty_config :: "'v option \<Rightarrow> (string \<times> 'v) list \<Rightarrow> ('u, 'v) config" where
  \<comment> \<open>\<^verbatim>\<open>Config.__init__\<close> before it adds its targets\<close>
  "empty_config func' variables' =
     \<lparr>func = func', targets = [], blacklisted_targets = [], variables = variables',
      unit_iterator = empty_kahn, ran_units = [], active_units = [], entry_point = None\<rparr>"

definition Config ::
  "nat \<Rightarrow> ('u list \<Rightarrow> 'u list) \<Rightarrow> ('u, 'v) units \<Rightarrow> 'v option \<Rightarrow> (string \<times> 'v) list \<Rightarrow> 'u list
     \<Rightarrow> (exn option \<times> ('u, 'v) config) option" where
  \<comment> \<open>\<^verbatim>\<open>Config(func, variables, targets)\<close>: every target is added with \<^verbatim>\<open>force=True\<close>\<close>
  "Config n ord h func' variables' targets' =
     add_target_each (Suc n) ord h targets' True (empty_config func' variables')"

subsection \<open>\<^verbatim>\<open>init\<close> and \<^verbatim>\<open>exit\<close>\<close>

text \<open>
  The calls the engine makes into code it is given are recorded, in order: \<open>Ran u\<close> for the
  first run of the function of \<open>u\<close> (the call itself, or the first \<^verbatim>\<open>next(instance)\<close> of a
  generator), \<open>Resumed u\<close> for the \<^verbatim>\<open>next(instance)\<close> of \<^verbatim>\<open>exit\<close> on the generator of \<open>u\<close>,
  \<open>Called f\<close> for a call of the callable object \<open>f\<close> by \<^verbatim>\<open>run\<close>, \<open>Triggered s\<close> for a
  signal triggered by \<^verbatim>\<open>run\<close>.
\<close>

datatype ('u, 'v) call = Ran 'u | Resumed 'u | Called 'v | Triggered string

definition first_run ::
  "('u, 'v) units \<Rightarrow> 'u \<Rightarrow> ('u, 'v) config
     \<Rightarrow> (exn + 'u generator option \<times> 'v option) \<times> ('u, 'v) config" where
  \<comment> \<open>the \<^verbatim>\<open>try\<close> block of \<^verbatim>\<open>init\<close> for a unit with a function: the instance and the
      result, or the exception raised\<close>
  "first_run h unit c =
     (case unit_func (h unit) of
        None \<Rightarrow> (Inr (None, None), c)
      | Some (GeneratorFunction f g) \<Rightarrow>
          (case f c of
             (Inl e, c') \<Rightarrow> (Inl e, c')
           | (Inr result, c') \<Rightarrow> (Inr (Some (Generator unit), result), c'))
      | Some AsyncGeneratorFunction \<Rightarrow> (Inl TypeError, c)
      | Some (Function f) \<Rightarrow>
          (case f c of
             (Inl e, c') \<Rightarrow> (Inl e, c')
           | (Inr result, c') \<Rightarrow> (Inr (None, result), c'))
      | Some (CoroutineFunction cv) \<Rightarrow> (Inr (None, Some cv), c))"

definition record_unit ::
  "'u \<Rightarrow> 'u generator option \<Rightarrow> ('u, 'v) config \<Rightarrow> ('u, 'v) config" where
  \<comment> \<open>\<^verbatim>\<open>self.active_units[unit] = instance; self.ran_units.append(unit)\<close>\<close>
  "record_unit unit inst c =
     c\<lparr>active_units := AList.update unit inst (active_units c),
       ran_units := ran_units c @ [unit]\<rparr>"

text \<open>
  One round of the loop of \<^verbatim>\<open>init\<close> for the unit the iterator returned: \<open>Inl\<close> when the
  method returns or raises in this round, \<open>Inr\<close> when the loop goes on.
\<close>

definition init_body ::
  "('u, 'v) units \<Rightarrow> 'u \<Rightarrow> ('u, 'v) config \<Rightarrow> ('u, 'v) call list
     \<Rightarrow> ((exn + 'v option) \<times> ('u, 'v) config \<times> ('u, 'v) call list) + (('u, 'v) config \<times> ('u, 'v) call list)" where
  "init_body h unit c calls =
     (if unit \<in> set (blacklisted_targets c) then Inr (record_unit unit None c, calls)
      else if is_empty (h unit) then Inr (record_unit unit None c, calls)
      else
        (case first_run h unit c of
           (Inl e, c') \<Rightarrow>
             (if e = StopInitException then Inl (Inr None, c'\<lparr>func := None\<rparr>, calls @ [Ran unit])
              else Inl (Inl e, c', calls @ [Ran unit]))
         | (Inr (inst, result), c') \<Rightarrow>
             (if result \<noteq> None then Inl (Inr result, record_unit unit inst c', calls @ [Ran unit])
              else Inr (record_unit unit inst c', calls @ [Ran unit]))))"

partial_function (option) config_init ::
  "('u list \<Rightarrow> 'u list) \<Rightarrow> ('u, 'v) units \<Rightarrow> ('u, 'v) config \<Rightarrow> ('u, 'v) call list
     \<Rightarrow> ((exn + 'v option) \<times> ('u, 'v) config \<times> ('u, 'v) call list) option" where
  \<comment> \<open>\<^verbatim>\<open>Config.init\<close>: \<^verbatim>\<open>StopIteration\<close> of the iterator ends the loop, any other
      exception of \<^verbatim>\<open>next()\<close> leaves the method\<close>
  "config_init ord h c calls =
     (case kahn_next ord h (unit_iterator c) of
        None \<Rightarrow> None
      | Some (Inl e, it) \<Rightarrow>
          (if e = StopIteration then Some (Inr None, c\<lparr>unit_iterator := it\<rparr>, calls)
           else Some (Inl e, c\<lparr>unit_iterator := it\<rparr>, calls))
      | Some (Inr unit, it) \<Rightarrow>
          (case init_body h unit (c\<lparr>unit_iterator := it\<rparr>) calls of
             Inl r \<Rightarrow> Some r
           | Inr (c', calls') \<Rightarrow> config_init ord h c' calls'))"

definition resume ::
  "('u, 'v) units \<Rightarrow> 'u generator \<Rightarrow> ('u, 'v) config \<Rightarrow> (exn + 'v option) \<times> ('u, 'v) config" where
  \<comment> \<open>\<^verbatim>\<open>next(instance)\<close> on a generator that is suspended at its first \<^verbatim>\<open>yield\<close>\<close>
  "resume h inst c =
     (case inst of Generator u \<Rightarrow>
        (case unit_func (h u) of
           Some (GeneratorFunction f g) \<Rightarrow> g c
         | _ \<Rightarrow> (Inl TypeError, c)))"

text \<open>
  One round of the loop of \<^verbatim>\<open>exit\<close>: \<open>Inl\<close> when the method returns (\<open>None\<close>) or raises in
  this round, \<open>Inr\<close> when the loop goes on.
\<close>

definition exit_body ::
  "('u, 'v) units \<Rightarrow> ('u, 'v) config \<Rightarrow> ('u, 'v) call list
     \<Rightarrow> (exn option \<times> ('u, 'v) config \<times> ('u, 'v) call list) + (('u, 'v) config \<times> ('u, 'v) call list)" where
  "exit_body h c calls =
     (if ran_units c = [] then Inl (None, c, calls)
      else
        (case map_of (active_units c) (last (ran_units c)) of
           None \<Rightarrow> Inl (Some KeyError, c\<lparr>ran_units := butlast (ran_units c)\<rparr>, calls)
         | Some inst \<Rightarrow>
             (if Some (last (ran_units c)) = entry_point c
              then Inl (None, c\<lparr>ran_units := butlast (ran_units c)\<rparr>, calls)
              else
                (case (if is_empty (h (last (ran_units c))) then None else inst) of
                   None \<Rightarrow>
                     Inr (c\<lparr>ran_units := butlast (ran_units c),
                            active_units := AList.delete (last (ran_units c)) (active_units c)\<rparr>,
                          calls)
                 | Some g \<Rightarrow>
                     (case resume h g (c\<lparr>ran_units := butlast (ran_units c)\<rparr>) of
                        (Inl e, c') \<Rightarrow>
                          (if e = StopIteration
                           then (if last (ran_units c) \<in> fst ` set (active_units c')
                                 then Inr (c'\<lparr>active_units :=
                                              AList.delete (last (ran_units c)) (active_units c')\<rparr>,
                                           calls @ [Resumed (last (ran_units c))])
                                 else Inl (Some KeyError, c', calls @ [Resumed (last (ran_units c))]))
                           else Inl (Some e, c', calls @ [Resumed (last (ran_units c))]))
                      | (Inr v, c') \<Rightarrow>
                          (if last (ran_units c) \<in> fst ` set (active_units c')
                           then Inr (c'\<lparr>active_units :=
                                        AList.delete (last (ran_units c)) (active_units c')\<rparr>,
                                     calls @ [Resumed (last (ran_units c))])
                           else Inl (Some KeyError, c', calls @ [Resumed (last (ran_units c))])))))))"

partial_function (option) config_exit ::
  "('u, 'v) units \<Rightarrow> ('u, 'v) config \<Rightarrow> ('u, 'v) call list
     \<Rightarrow> (exn option \<times> ('u, 'v) config \<times> ('u, 'v) call list) option" where
  "config_exit h c calls =
     (case exit_body h c calls of
        Inl r \<Rightarrow> Some r
      | Inr (c', calls') \<Rightarrow> config_exit h c' calls')"

subsection \<open>Well-formed relations and the invariant of the iterator\<close>

text \<open>
  The relations of a heap are symmetric when ``\<open>u\<close> is in \<^verbatim>\<open>x.after\<close>'' and ``\<open>x\<close> is in
  \<^verbatim>\<open>u.before\<close>'' say the same, which is what registration establishes, and irreflexive
  when no unit is listed after itself.
\<close>

definition symmetric_relations :: "('u, 'm) heap \<Rightarrow> bool" where
  "symmetric_relations h = (\<forall>x u. (u \<in> set (unit_after (h x))) = (x \<in> set (unit_before (h u))))"

definition irreflexive_relations :: "('u, 'm) heap \<Rightarrow> bool" where
  "irreflexive_relations h = (\<forall>x. x \<notin> set (unit_after (h x)))"

text \<open>
  Half of the symmetry is enough for the invariant: whenever \<open>u\<close> is in \<^verbatim>\<open>x.after\<close>, \<open>x\<close> is
  in \<^verbatim>\<open>u.before\<close>. A group unit built with \<^verbatim>\<open>ConfigUnit(before=...)\<close> and never registered
  has a \<^verbatim>\<open>before\<close> that the other side does not list; that does not break this half.
\<close>

definition after_registered :: "('u, 'm) heap \<Rightarrow> bool" where
  "after_registered h = (\<forall>x u. u \<in> set (unit_after (h x)) \<longrightarrow> x \<in> set (unit_before (h u)))"

definition pending :: "'u kahn \<Rightarrow> 'u \<Rightarrow> 'u set" where
  \<comment> \<open>the units \<^verbatim>\<open>self.after[x]\<close> still holds\<close>
  "pending it x = set (dd_get (after it) x)"

text \<open>
  The invariant behind topological soundness: the keys of \<^verbatim>\<open>self.after\<close> are distinct,
  a node on the stack waits for nothing, and a known node \<open>x\<close> waits for every known unit
  of \<^verbatim>\<open>x.after\<close> that has neither been produced nor lost an exclusive group to a
  produced unit.
\<close>

definition sound :: "('u, 'm) heap \<Rightarrow> 'u kahn \<Rightarrow> bool" where
  "sound h it =
     (distinct (map fst (after it))
      \<and> (\<forall>x \<in> set (stack it). pending it x = {})
      \<and> (\<forall>x \<in> set (nodes it). \<forall>u \<in> set (unit_after (h x)).
            u \<in> set (nodes it) \<longrightarrow>
              u \<in> set (lst it) \<or> conflict h (lst it) u \<or> u \<in> pending it x))"

text \<open>
  What one call of \<^verbatim>\<open>next()\<close> does to the produced list, and what it keeps of the
  invariant: both are carried through the recursion of the call.
\<close>

definition lst_step :: "('u, 'm) heap \<Rightarrow> 'u kahn \<Rightarrow> (exn + 'u) \<times> 'u kahn \<Rightarrow> bool" where
  "lst_step h it res =
     (case fst res of
        Inl e \<Rightarrow> lst (snd res) = lst it
      | Inr x \<Rightarrow> lst (snd res) = lst it @ [x] \<and> \<not> conflict h (lst it) x)"

definition sound_step :: "('u, 'm) heap \<Rightarrow> 'u kahn \<Rightarrow> (exn + 'u) \<times> 'u kahn \<Rightarrow> bool" where
  "sound_step h it res =
     (sound h (snd res) \<and> nodes (snd res) = nodes it
      \<and> (case fst res of
            Inl e \<Rightarrow> True
          | Inr x \<Rightarrow> x \<in> set (nodes it) \<longrightarrow>
              (\<forall>u \<in> set (unit_after (h x)). u \<in> set (nodes it) \<longrightarrow>
                 u \<in> set (lst it) \<or> conflict h (lst it) u)))"

text \<open>
  An iterator that has produced nothing, and whose stack and \<^verbatim>\<open>self.after\<close> hold known
  units only: what \<^verbatim>\<open>KahnIterator(units)\<close> is before the first \<^verbatim>\<open>next()\<close>.
\<close>

definition tidy :: "'u kahn \<Rightarrow> bool" where
  "tidy it = (lst it = [] \<and> set (stack it) \<subseteq> set (nodes it)
              \<and> fst ` set (after it) \<subseteq> set (nodes it))"

section \<open>Units of the scenarios\<close>

text \<open>\<^verbatim>\<open>def f(config): pass\<close>: a plain function that returns \<^verbatim>\<open>None\<close>.\<close>

definition noop :: "('c, 'v) action" where
  "noop = Function (\<lambda>c. (Inr None, c))"

text \<open>
  An exclusive group \<open>g\<close> that contains \<open>x\<close> and \<open>y\<close>; \<open>x\<close> depends on \<open>z\<close> and runs after it,
  \<open>w\<close> runs after \<open>x\<close>. Every relation is recorded on both sides.
\<close>

datatype group_unit = Ug | Ux | Uy | Uz | Uw

fun group_units :: "(group_unit, string) units" where
  "group_units Ug =
     \<lparr>unit_after = [], unit_before = [], belongs = [], exclusive = True,
      contains = [Ux, Uy], depends = [], conflicts = [], unit_func = None\<rparr>"
| "group_units Ux =
     \<lparr>unit_after = [Uz], unit_before = [Uw], belongs = [Ug], exclusive = False,
      contains = [], depends = [Uz], conflicts = [], unit_func = Some noop\<rparr>"
| "group_units Uy =
     \<lparr>unit_after = [], unit_before = [], belongs = [Ug], exclusive = False,
      contains = [], depends = [], conflicts = [], unit_func = Some noop\<rparr>"
| "group_units Uz =
     \<lparr>unit_after = [], unit_before = [Ux], belongs = [], exclusive = False,
      contains = [], depends = [], conflicts = [], unit_func = Some noop\<rparr>"
| "group_units Uw =
     \<lparr>unit_after = [Ux], unit_before = [], belongs = [], exclusive = False,
      contains = [], depends = [], conflicts = [], unit_func = Some noop\<rparr>"

definition after_edges :: "('u, 'm) heap \<Rightarrow> ('u \<times> 'u) set" where
  \<comment> \<open>the pairs \<open>(u, x)\<close> with \<open>u\<close> in \<^verbatim>\<open>x.after\<close>\<close>
  "after_edges h = {(u, x). u \<in> set (unit_after (h x))}"

text \<open>
  A unit \<open>a\<close> without relations beside two units that wait for each other: \<open>b\<close> after \<open>c\<close>
  and \<open>c\<close> after \<open>b\<close>, recorded on both sides.
\<close>

fun cyclic_units :: "(abcd, string) units" where
  "cyclic_units Ua =
     \<lparr>unit_after = [], unit_before = [], belongs = [], exclusive = False,
      contains = [], depends = [], conflicts = [], unit_func = Some noop\<rparr>"
| "cyclic_units Ub =
     \<lparr>unit_after = [Uc], unit_before = [Uc], belongs = [], exclusive = False,
      contains = [], depends = [], conflicts = [], unit_func = Some noop\<rparr>"
| "cyclic_units Uc =
     \<lparr>unit_after = [Ub], unit_before = [Ub], belongs = [], exclusive = False,
      contains = [], depends = [], conflicts = [], unit_func = Some noop\<rparr>"
| "cyclic_units Ud =
     \<lparr>unit_after = [], unit_before = [], belongs = [], exclusive = False,
      contains = [], depends = [], conflicts = [], unit_func = Some noop\<rparr>"

text \<open>Two units, \<open>b\<close> before \<open>c\<close>, recorded on both sides; \<open>a\<close> and \<open>d\<close> have no relations.\<close>

fun late_units :: "(abcd, string) units" where
  "late_units Ub =
     \<lparr>unit_after = [], unit_before = [Uc], belongs = [], exclusive = False,
      contains = [], depends = [], conflicts = [], unit_func = Some noop\<rparr>"
| "late_units Uc =
     \<lparr>unit_after = [Ub], unit_before = [], belongs = [], exclusive = False,
      contains = [], depends = [], conflicts = [], unit_func = Some noop\<rparr>"
| "late_units u =
     \<lparr>unit_after = [], unit_before = [], belongs = [], exclusive = False,
      contains = [], depends = [], conflicts = [], unit_func = Some noop\<rparr>"

subsection \<open>Driving the engine\<close>

text \<open>
  A caller's calls on one \<^verbatim>\<open>Config\<close>, in order: \<^verbatim>\<open>add_target\<close>, \<^verbatim>\<open>init\<close>, \<^verbatim>\<open>exit\<close>, and
  \<^verbatim>\<open>add_node\<close> called on \<^verbatim>\<open>config.unit_iterator\<close> directly. \<open>run_engine\<close> performs them and
  collects what each call returned or raised; a raised exception is taken to be caught by
  the caller. The first argument bounds the depth of \<^verbatim>\<open>add_target\<close>.
\<close>

datatype 'u engine_op = AddTarget 'u bool | Init | Exit | IteratorAddNode 'u

datatype 'v outcome = Raised exn | Returned "'v option"

definition raised_or_none :: "exn option \<Rightarrow> 'v outcome" where
  "raised_or_none r = (case r of Some e \<Rightarrow> Raised e | None \<Rightarrow> Returned None)"

definition raised_or_returned :: "exn + 'v option \<Rightarrow> 'v outcome" where
  "raised_or_returned r = (case r of Inl e \<Rightarrow> Raised e | Inr v \<Rightarrow> Returned v)"

fun run_engine ::
  "nat \<Rightarrow> ('u list \<Rightarrow> 'u list) \<Rightarrow> ('u, 'v) units \<Rightarrow> 'u engine_op list
     \<Rightarrow> ('u, 'v) config \<Rightarrow> ('u, 'v) call list
     \<Rightarrow> ('v outcome list \<times> ('u, 'v) config \<times> ('u, 'v) call list) option" where
  "run_engine n ord h [] c calls = Some ([], c, calls)"
| "run_engine n ord h (AddTarget u force # ops) c calls =
     (case add_target n ord h u force c of
        None \<Rightarrow> None
      | Some (r, c') \<Rightarrow>
          map_option (\<lambda>(rs, c'', calls''). (raised_or_none r # rs, c'', calls''))
            (run_engine n ord h ops c' calls))"
| "run_engine n ord h (Init # ops) c calls =
     (case config_init ord h c calls of
        None \<Rightarrow> None
      | Some (r, c', calls') \<Rightarrow>
          map_option (\<lambda>(rs, c'', calls''). (raised_or_returned r # rs, c'', calls''))
            (run_engine n ord h ops c' calls'))"
| "run_engine n ord h (Exit # ops) c calls =
     (case config_exit h c calls of
        None \<Rightarrow> None
      | Some (r, c', calls') \<Rightarrow>
          map_option (\<lambda>(rs, c'', calls''). (raised_or_none r # rs, c'', calls''))
            (run_engine n ord h ops c' calls'))"
| "run_engine n ord h (IteratorAddNode u # ops) c calls =
     map_option (\<lambda>(rs, c'', calls''). (Returned None # rs, c'', calls''))
       (run_engine n ord h ops (c\<lparr>unit_iterator := add_node h u (unit_iterator c)\<rparr>) calls)"

subsection \<open>\<^verbatim>\<open>run\<close>\<close>

text \<open>
  What \<^verbatim>\<open>run\<close> needs to know of the Python objects it handles: whether an object is
  callable, what calling it with the config does (for a \<^verbatim>\<open>Command\<close>, what its
  \<^verbatim>\<open>run\<close> method does), whether \<^verbatim>\<open>func\<close> is a \<^verbatim>\<open>Command\<close> with
  \<^verbatim>\<open>trigger_startup_signals\<close> set, and what the handlers of a signal do.
\<close>

record ('u, 'v) python =
  callable :: "'v \<Rightarrow> bool"
  call_object :: "'v \<Rightarrow> ('u, 'v) config \<Rightarrow> exn option \<times> ('u, 'v) config"
  startup_signals :: "'v \<Rightarrow> bool"
  trigger_signal :: "string \<Rightarrow> ('u, 'v) config \<Rightarrow> exn option \<times> ('u, 'v) config"

definition finally_exit ::
  "('u, 'v) units \<Rightarrow> exn option \<times> ('u, 'v) config \<Rightarrow> ('u, 'v) call list
     \<Rightarrow> (exn option \<times> ('u, 'v) config \<times> ('u, 'v) call list) option" where
  \<comment> \<open>\<^verbatim>\<open>finally: config.exit()\<close> after a block that raised the given exception, or none:
      an exception of \<^verbatim>\<open>exit\<close> takes the place of the one of the block\<close>
  "finally_exit h r calls =
     (case config_exit h (snd r) calls of
        None \<Rightarrow> None
      | Some (Some e, c, calls') \<Rightarrow> Some (Some e, c, calls')
      | Some (None, c, calls') \<Rightarrow> Some (fst r, c, calls'))"

definition run_func ::
  "('u, 'v) units \<Rightarrow> ('u, 'v) python \<Rightarrow> 'v \<Rightarrow> ('u, 'v) config \<Rightarrow> ('u, 'v) call list
     \<Rightarrow> (exn option \<times> ('u, 'v) config \<times> ('u, 'v) call list) option" where
  \<comment> \<open>the branch \<^verbatim>\<open>elif config.func is not None\<close>\<close>
  "run_func h py f c calls =
     (if startup_signals py f then
        (case trigger_signal py ''ready'' c of
           (Some e, c1) \<Rightarrow> Some (Some e, c1, calls @ [Triggered ''ready''])
         | (None, c1) \<Rightarrow>
             (case call_object py f c1 of
                (r, c2) \<Rightarrow>
                  (case trigger_signal py ''stopping'' c2 of
                     (Some e, c3) \<Rightarrow>
                       Some (Some e, c3,
                         calls @ [Triggered ''ready'', Called f, Triggered ''stopping''])
                   | (None, c3) \<Rightarrow>
                       finally_exit h (r, c3)
                         (calls @ [Triggered ''ready'', Called f, Triggered ''stopping'']))))
      else finally_exit h (call_object py f c) (calls @ [Called f]))"

definition run ::
  "('u list \<Rightarrow> 'u list) \<Rightarrow> ('u, 'v) units \<Rightarrow> ('u, 'v) python \<Rightarrow> ('u, 'v) config
     \<Rightarrow> ('u, 'v) call list \<Rightarrow> (exn option \<times> ('u, 'v) config \<times> ('u, 'v) call list) option" where
  \<comment> \<open>\<^verbatim>\<open>run(config=c)\<close> from \<^verbatim>\<open>wrapper_func = config.init()\<close> on, for a \<^verbatim>\<open>func\<close> that is
      not a coroutine function; an exception of \<^verbatim>\<open>init\<close> leaves \<^verbatim>\<open>run\<close> at once\<close>
  "run ord h py c calls =
     (case config_init ord h c calls of
        None \<Rightarrow> None
      | Some (Inl e, c1, calls1) \<Rightarrow> Some (Some e, c1, calls1)
      | Some (Inr wrapper_func, c1, calls1) \<Rightarrow>
          (case (case wrapper_func of None \<Rightarrow> None
                 | Some w \<Rightarrow> if callable py w then Some w else None) of
             Some w \<Rightarrow> finally_exit h (call_object py w c1) (calls1 @ [Called w])
           | None \<Rightarrow>
               (case func c1 of
                  Some f \<Rightarrow> run_func h py f c1 calls1
                | None \<Rightarrow> config_exit h c1 calls1)))"

subsection \<open>What the theorems ask of unit functions\<close>

text \<open>
  A unit function receives the config and may do anything with it. The theorems on
  \<^verbatim>\<open>init\<close> and \<^verbatim>\<open>exit\<close> hold for functions that leave the engine's own bookkeeping
  alone: the history, the active instances and the entry point.
\<close>

definition keeps_history :: "(('u, 'v) config \<Rightarrow> 'r \<times> ('u, 'v) config) \<Rightarrow> bool" where
  "keeps_history f =
     (\<forall>c. ran_units (snd (f c)) = ran_units c
          \<and> active_units (snd (f c)) = active_units c
          \<and> entry_point (snd (f c)) = entry_point c)"

definition well_behaved :: "('u, 'v) units \<Rightarrow> bool" where
  "well_behaved h =
     (\<forall>u. case unit_func (h u) of
             Some (Function f) \<Rightarrow> keeps_history f
           | Some (GeneratorFunction f g) \<Rightarrow> keeps_history f \<and> keeps_history g
           | _ \<Rightarrow> True)"

definition teardown_completes :: "('u, 'v) units \<Rightarrow> 'u generator \<Rightarrow> bool" where
  \<comment> \<open>resuming the generator never raises anything but \<^verbatim>\<open>StopIteration\<close>\<close>
  "teardown_completes h g = (\<forall>c e. fst (resume h g c) = Inl e \<longrightarrow> e = StopIteration)"

definition has_generator :: "('u, 'v) units \<Rightarrow> ('u, 'v) config \<Rightarrow> 'u \<Rightarrow> bool" where
  \<comment> \<open>\<^verbatim>\<open>not (unit.is_empty or instance is None)\<close> for the instance stored for the unit\<close>
  "has_generator h c u =
     (case map_of (active_units c) u of
        Some (Some g) \<Rightarrow> \<not> is_empty (h u)
      | _ \<Rightarrow> False)"

text \<open>
  A unit in the history can be torn down: it has an entry in \<^verbatim>\<open>active_units\<close>, and when the
  entry is a generator that \<^verbatim>\<open>exit\<close> resumes, resuming it raises nothing but
  \<^verbatim>\<open>StopIteration\<close>.
\<close>

definition can_tear_down :: "('u, 'v) units \<Rightarrow> ('u, 'v) config \<Rightarrow> 'u \<Rightarrow> bool" where
  "can_tear_down h c u =
     (\<exists>inst. map_of (active_units c) u = Some inst
        \<and> (\<forall>g. inst = Some g \<longrightarrow> \<not> is_empty (h u) \<longrightarrow> teardown_completes h g))"

text \<open>
  Two-phase units for the scenarios on \<^verbatim>\<open>init\<close> and \<^verbatim>\<open>exit\<close>: the setup phase of
  \<open>provides k\<close> sets the variable \<open>k\<close> and yields \<^verbatim>\<open>None\<close>, its teardown phase removes the
  variable and completes. \<open>sets k\<close> is a plain function. The teardown phase of \<open>breaks k\<close>
  raises an exception. \<open>stops\<close> raises \<^verbatim>\<open>StopInitException\<close>.
\<close>

definition provides :: "string \<Rightarrow> (('u, string) config, string) action" where
  "provides k =
     GeneratorFunction
       (\<lambda>c. (Inr None, c\<lparr>variables := AList.update k ''up'' (variables c)\<rparr>))
       (\<lambda>c. (Inl StopIteration, c\<lparr>variables := AList.delete k (variables c)\<rparr>))"

definition sets :: "string \<Rightarrow> (('u, string) config, string) action" where
  "sets k = Function (\<lambda>c. (Inr None, c\<lparr>variables := AList.update k ''up'' (variables c)\<rparr>))"

definition breaks :: "string \<Rightarrow> (('u, string) config, string) action" where
  "breaks k =
     GeneratorFunction
       (\<lambda>c. (Inr None, c\<lparr>variables := AList.update k ''up'' (variables c)\<rparr>))
       (\<lambda>c. (Inl (Exception ''boom''), c))"

definition stops :: "(('u, string) config, string) action" where
  "stops = Function (\<lambda>c. (Inl StopInitException, c))"

text \<open>
  A chain \<open>a\<close>, \<open>b\<close>, \<open>c\<close>, \<open>d\<close>, each unit after the one before it, recorded on both sides,
  with the given actions.
\<close>

fun chain_units ::
  "(abcd \<Rightarrow> ((abcd, string) config, string) action option) \<Rightarrow> (abcd, string) units" where
  "chain_units acts Ua =
     \<lparr>unit_after = [], unit_before = [Ub], belongs = [], exclusive = False,
      contains = [], depends = [], conflicts = [], unit_func = acts Ua\<rparr>"
| "chain_units acts Ub =
     \<lparr>unit_after = [Ua], unit_before = [Uc], belongs = [], exclusive = False,
      contains = [], depends = [Ua], conflicts = [], unit_func = acts Ub\<rparr>"
| "chain_units acts Uc =
     \<lparr>unit_after = [Ub], unit_before = [Ud], belongs = [], exclusive = False,
      contains = [], depends = [Ub], conflicts = [], unit_func = acts Uc\<rparr>"
| "chain_units acts Ud =
     \<lparr>unit_after = [Uc], unit_before = [], belongs = [], exclusive = False,
      contains = [], depends = [Uc], conflicts = [], unit_func = acts Ud\<rparr>"

fun failing_acts :: "abcd \<Rightarrow> ((abcd, string) config, string) action option" where
  "failing_acts Ua = Some (provides ''a'')"
| "failing_acts Ub = Some (provides ''b'')"
| "failing_acts Uc = Some (breaks ''c'')"
| "failing_acts Ud = Some (provides ''d'')"

text \<open>
  The state of a config whose \<^verbatim>\<open>init\<close> has run the chain with the actions \<open>failing_acts\<close>.
\<close>

definition failing_config :: "(abcd, string) config" where
  "failing_config =
     \<lparr>func = Some ''main'', targets = [Ud, Uc, Ub, Ua], blacklisted_targets = [],
      variables = [(''a'', ''up''), (''b'', ''up''), (''c'', ''up''), (''d'', ''up'')],
      unit_iterator =
        \<lparr>after = [(Ua, [])], lst = [Ua, Ub, Uc, Ud], stack = [],
         before = [(Uc, [Ud]), (Ub, [Uc]), (Ua, [Ub]), (Ud, [])],
         nodes = [Ud, Uc, Ub, Ua]\<rparr>,
      ran_units = [Ua, Ub, Uc, Ud],
      active_units =
        [(Ua, Some (Generator Ua)), (Ub, Some (Generator Ub)), (Uc, Some (Generator Uc)),
         (Ud, Some (Generator Ud))],
      entry_point = None\<rparr>"

text \<open>
  Two-phase units \<open>b\<close>, \<open>c\<close> and \<open>d\<close>, \<open>b\<close> before \<open>c\<close>, and a unit \<open>a\<close> that stops \<^verbatim>\<open>init\<close> and
  is after \<open>b\<close>; every relation is recorded on both sides, \<open>d\<close> has none.
\<close>

fun rerun_units :: "(abcd, string) units" where
  "rerun_units Ua =
     \<lparr>unit_after = [Ub], unit_before = [], belongs = [], exclusive = False,
      contains = [], depends = [], conflicts = [], unit_func = Some stops\<rparr>"
| "rerun_units Ub =
     \<lparr>unit_after = [], unit_before = [Uc, Ua], belongs = [], exclusive = False,
      contains = [], depends = [], conflicts = [], unit_func = Some (provides ''b'')\<rparr>"
| "rerun_units Uc =
     \<lparr>unit_after = [Ub], unit_before = [], belongs = [], exclusive = False,
      contains = [], depends = [], conflicts = [], unit_func = Some (provides ''c'')\<rparr>"
| "rerun_units Ud =
     \<lparr>unit_after = [], unit_before = [], belongs = [], exclusive = False,
      contains = [], depends = [], conflicts = [], unit_func = Some (provides ''d'')\<rparr>"

text \<open>
  The config after \<^verbatim>\<open>Config(func=main, targets=[d, c])\<close>, a first \<^verbatim>\<open>init()\<close>, which runs \<open>d\<close>
  and \<open>c\<close>, and then \<^verbatim>\<open>add_target(a)\<close> and \<^verbatim>\<open>add_target(b)\<close>; and a Python world in which
  every object is a plain function that records its call in a variable.
\<close>

definition rerun_config :: "(abcd, string) config" where
  "rerun_config =
     \<lparr>func = Some ''main'', targets = [Ud, Uc, Ua, Ub], blacklisted_targets = [],
      variables = [(''d'', ''up''), (''c'', ''up'')],
      unit_iterator =
        \<lparr>after = [(Ud, []), (Uc, [Ub]), (Ua, [Ub]), (Ub, [])], lst = [Ud, Uc], stack = [Ub],
         before = [(Ud, []), (Uc, []), (Ub, [Uc, Ua])], nodes = [Ud, Uc, Ua, Ub]\<rparr>,
      ran_units = [Ud, Uc],
      active_units = [(Ud, Some (Generator Ud)), (Uc, Some (Generator Uc))],
      entry_point = None\<rparr>"

definition plain_python :: "(abcd, string) python" where
  "plain_python =
     \<lparr>callable = (\<lambda>v. True),
      call_object = (\<lambda>v c. (None, c\<lparr>variables := AList.update v ''called'' (variables c)\<rparr>)),
      startup_signals = (\<lambda>v. False),
      trigger_signal = (\<lambda>s c. (None, c))\<rparr>"

subsection \<open>The units of \<^verbatim>\<open>units/base.py\<close>\<close>

text \<open>
  The values that the functions of these units handle: an integer, a function object, and
  the coroutine object that calling a coroutine function returns.
\<close>

datatype pyobj = PyInt int | PyFunction string | PyCoroutine string

text \<open>
  Importing \<^verbatim>\<open>units/base.py\<close> builds \<^verbatim>\<open>ASYNC_UNIT\<close> and \<^verbatim>\<open>MULTIPROCESSING_UNIT\<close> with the
  constructor and registers \<^verbatim>\<open>async_event_loop\<close> and \<^verbatim>\<open>multiprocessing_unit\<close> with
  \<^verbatim>\<open>@config_unit\<close>. An application then declares, with \<^verbatim>\<open>@config_unit\<close>, the coroutine function
  \<^verbatim>\<open>fetch\<close>, the plain function \<^verbatim>\<open>workers\<close>, and the coroutine function \<^verbatim>\<open>worker\<close> with
  \<^verbatim>\<open>belongs=workers\<close>. Each unit below is what the constructor returns, followed by what the
  calls of \<^verbatim>\<open>ConfigUnit.add_unit\<close> appended, in that order:

    \<^item> registering \<^verbatim>\<open>async_event_loop\<close> appends it to \<^verbatim>\<open>ASYNC_UNIT.contains\<close>;
    \<^item> registering \<^verbatim>\<open>multiprocessing_unit\<close> appends it to \<^verbatim>\<open>MULTIPROCESSING_UNIT.contains\<close>,
      copies \<^verbatim>\<open>MULTIPROCESSING_UNIT.before\<close> into its \<^verbatim>\<open>before\<close>, appends it to the \<^verbatim>\<open>after\<close> of
      \<^verbatim>\<open>ASYNC_UNIT\<close> and of \<^verbatim>\<open>async_event_loop\<close>, and \<^verbatim>\<open>async_event_loop\<close> to its \<^verbatim>\<open>before\<close>;
    \<^item> registering \<^verbatim>\<open>fetch\<close>, and later \<^verbatim>\<open>worker\<close>, which the constructor put after
      \<^verbatim>\<open>ASYNC_UNIT\<close>, appends the unit to the \<^verbatim>\<open>before\<close> of \<^verbatim>\<open>ASYNC_UNIT\<close> and of
      \<^verbatim>\<open>async_event_loop\<close>, and \<^verbatim>\<open>async_event_loop\<close> to the \<^verbatim>\<open>after\<close> of the unit;
    \<^item> registering \<^verbatim>\<open>worker\<close> appends it to \<^verbatim>\<open>workers.contains\<close>.

  The generator of \<^verbatim>\<open>async_event_loop\<close> yields the function \<^verbatim>\<open>wrapped\<close>. The generator of
  \<^verbatim>\<open>multiprocessing_unit\<close> reads the variable \<^verbatim>\<open>NUMBER_OF_PROCESSES\<close> (default 1), yields
  \<^verbatim>\<open>None\<close> when it is at most 1 and its own function \<^verbatim>\<open>wrapped\<close> otherwise.
\<close>

datatype base_unit =
  AsyncUnit | AsyncEventLoop | MultiprocessingUnit | Multiprocessing | Fetch | Workers | Worker

definition async_event_loop :: "((base_unit, pyobj) config, pyobj) action" where
  "async_event_loop =
     GeneratorFunction (\<lambda>c. (Inr (Some (PyFunction ''async_event_loop.wrapped'')), c))
                       (\<lambda>c. (Inl StopIteration, c))"

definition multiprocessing_unit :: "((base_unit, pyobj) config, pyobj) action" where
  "multiprocessing_unit =
     GeneratorFunction
       (\<lambda>c. case map_of (variables c) ''NUMBER_OF_PROCESSES'' of
               None \<Rightarrow> (Inr None, c)
             | Some (PyInt processes_count) \<Rightarrow>
                 if processes_count \<le> 1 then (Inr None, c)
                 else (Inr (Some (PyFunction ''multiprocessing_unit.wrapped'')), c)
             | Some other \<Rightarrow> (Inl TypeError, c))
       (\<lambda>c. (Inl StopIteration, c))"

definition fetch_unit :: "(base_unit, (base_unit, pyobj) config, pyobj) config_unit" where
  \<comment> \<open>\<^verbatim>\<open>fetch\<close> as the constructor returns it\<close>
  "fetch_unit =
     ConfigUnit AsyncUnit NoParam NoParam NoParam NoParam NoParam NoParam False
       (Some (CoroutineFunction (PyCoroutine ''fetch'')))"

definition worker_unit :: "(base_unit, (base_unit, pyobj) config, pyobj) config_unit" where
  \<comment> \<open>\<^verbatim>\<open>worker\<close> as the constructor returns it\<close>
  "worker_unit =
     ConfigUnit AsyncUnit NoParam (One Workers) NoParam NoParam NoParam NoParam False
       (Some (CoroutineFunction (PyCoroutine ''worker'')))"

fun base_units :: "(base_unit, pyobj) units" where
  "base_units AsyncUnit =
     (ConfigUnit AsyncUnit NoParam NoParam NoParam NoParam NoParam NoParam True None)
       \<lparr>contains := [AsyncEventLoop], unit_after := [Multiprocessing],
        unit_before := [Fetch, Worker]\<rparr>"
| "base_units AsyncEventLoop =
     (ConfigUnit AsyncUnit NoParam (One AsyncUnit) NoParam NoParam NoParam NoParam False
        (Some async_event_loop))
       \<lparr>unit_after := [Multiprocessing], unit_before := [Fetch, Worker]\<rparr>"
| "base_units MultiprocessingUnit =
     (ConfigUnit AsyncUnit NoParam NoParam NoParam (One AsyncUnit) NoParam NoParam True None)
       \<lparr>contains := [Multiprocessing]\<rparr>"
| "base_units Multiprocessing =
     (ConfigUnit AsyncUnit NoParam (One MultiprocessingUnit) NoParam NoParam NoParam NoParam False
        (Some multiprocessing_unit))
       \<lparr>unit_before := [AsyncUnit, AsyncEventLoop]\<rparr>"
| "base_units Fetch = fetch_unit\<lparr>unit_after := unit_after fetch_unit @ [AsyncEventLoop]\<rparr>"
| "base_units Workers =
     (ConfigUnit AsyncUnit NoParam NoParam NoParam NoParam NoParam NoParam False (Some noop))
       \<lparr>contains := [Worker]\<rparr>"
| "base_units Worker = worker_unit\<lparr>unit_after := unit_after worker_unit @ [AsyncEventLoop]\<rparr>"

text \<open>
  \<^verbatim>\<open>add_unit\<close> calls \<^verbatim>\<open>add_target(unit, force=False)\<close> on every listening config before it
  appends anything. These are the units as that call finds them while \<^verbatim>\<open>worker\<close> is being
  registered: \<^verbatim>\<open>worker\<close> is what the constructor returned and no other unit lists it yet.
\<close>

fun registering_worker :: "(base_unit, pyobj) units" where
  "registering_worker AsyncUnit = (base_units AsyncUnit)\<lparr>unit_before := [Fetch]\<rparr>"
| "registering_worker AsyncEventLoop = (base_units AsyncEventLoop)\<lparr>unit_before := [Fetch]\<rparr>"
| "registering_worker Workers = (base_units Workers)\<lparr>contains := []\<rparr>"
| "registering_worker Worker = worker_unit"
| "registering_worker u = base_units u"

section \<open>Proofs\<close>

subsection \<open>Iteration orders of small sets\<close>

lemma iteration_order_id: "iteration_order (\<lambda>xs. xs)"
  by (simp add: iteration_order_def)

lemma iteration_order_set: "iteration_order ord \<Longrightarrow> set (ord xs) = set xs"
  by (metis iteration_order_def set_mset_mset)

lemma iteration_order_Nil: "iteration_order ord \<Longrightarrow> ord [] = []"
  by (metis iteration_order_def mset_zero_iff)

lemma iteration_order_single: "iteration_order ord \<Longrightarrow> ord [x] = [x]"
  by (metis iteration_order_def mset_single_iff_right mset.simps(1) mset.simps(2) mset_zero_iff)

lemma iteration_order_pair:
  assumes "iteration_order ord"
  shows "ord [x, y] = [x, y] \<or> ord [x, y] = [y, x]"
proof -
  have m: "mset (ord [x, y]) = {#x, y#}"
    using assms by (simp add: iteration_order_def)
  then have "length (ord [x, y]) = 2"
    by (metis size_mset size_add_mset size_empty One_nat_def Suc_1)
  then obtain p q where pq: "ord [x, y] = [p, q]"
    by (metis (no_types, opaque_lifting) One_nat_def Suc_1 length_0_conv length_Suc_conv)
  with m have "{#p, q#} = {#x, y#}" by simp
  then have "(p = x \<and> q = y) \<or> (p = y \<and> q = x)"
    by (auto simp: add_eq_conv_diff)
  with pq show ?thesis by auto
qed

subsection \<open>Evaluating the iterator on explicit states\<close>

lemmas kahn_eval =
  KahnIterator_def add_node_def empty_kahn_def register_node_def note_after_def
  note_before_def set_pending_def set_dependents_def push_ready_def add_known_def
  cleanup_stack_def remove_node_def unregister_node_def drop_bookkeeping_def
  rescan_step_def rescan_def forget_node_def
  dd_add_def dd_get_def dd_touch_def dd_discard_def dd_prune_def set_add_def
  kahn_next.simps refill_def rescue_promote_def rescue_delete_def promote_def
  release_def release_step_def pop_release_def conflict_def

subsection \<open>Inserting a node while iterating\<close>

text \<open>
  C6. Over the units \<open>a\<close>, \<open>b\<close>, \<open>c\<close> with \<open>b\<close> before \<open>a\<close>, \<open>c\<close> before \<open>a\<close> and \<open>c\<close> after \<open>b\<close>:
  once \<open>b\<close> has been produced and before \<open>c\<close> is, a unit \<open>d\<close> with \<open>d\<close> before \<open>c\<close> is
  inserted with \<^verbatim>\<open>add_node\<close>. Iteration then yields \<open>d\<close>, \<open>c\<close>, \<open>a\<close> and stops, so the
  produced list is \<open>b, d, c, a\<close>. This holds for the nodes as \<^verbatim>\<open>test_kahn.py\<close> builds them
  and for the same units with each relation recorded on both sides, whatever order the
  sets are visited in.
\<close>

theorem add_node_mid_iteration:
  assumes "iteration_order ord"
  shows "map_option fst (run_ops ord test_nodes [Next, AddNode Ud, Next, Next, Next, Next]
            (KahnIterator test_nodes [Ua, Ub, Uc]))
           = Some [Inr Ub, Inr Ud, Inr Uc, Inr Ua, Inl StopIteration]
       \<and> map_option (lst \<circ> snd) (run_ops ord test_nodes [Next, AddNode Ud, Next, Next, Next, Next]
            (KahnIterator test_nodes [Ua, Ub, Uc])) = Some [Ub, Ud, Uc, Ua]
       \<and> map_option fst (run_ops ord closed_nodes [Next, AddNode Ud, Next, Next, Next, Next]
            (KahnIterator closed_nodes [Ua, Ub, Uc]))
           = Some [Inr Ub, Inr Ud, Inr Uc, Inr Ua, Inl StopIteration]
       \<and> map_option (lst \<circ> snd) (run_ops ord closed_nodes [Next, AddNode Ud, Next, Next, Next, Next]
            (KahnIterator closed_nodes [Ua, Ub, Uc])) = Some [Ub, Ud, Uc, Ua]"
proof -
  note o1 = iteration_order_single[OF assms] iteration_order_Nil[OF assms]
  have "ord [Ua, Uc] = [Ua, Uc] \<or> ord [Ua, Uc] = [Uc, Ua]"
    by (rule iteration_order_pair[OF assms])
  then show ?thesis
  proof
    assume o: "ord [Ua, Uc] = [Ua, Uc]"
    show ?thesis by (simp add: kahn_eval o o1)
  next
    assume o: "ord [Ua, Uc] = [Uc, Ua]"
    show ?thesis by (simp add: kahn_eval o o1)
  qed
qed

theorem add_node_mid_iteration_witness:
  "iteration_order (\<lambda>xs :: abcd list. xs)
   \<and> map_option fst (run_ops (\<lambda>xs. xs) test_nodes [Next, AddNode Ud, Next, Next, Next, Next]
            (KahnIterator test_nodes [Ua, Ub, Uc]))
           = Some [Inr Ub, Inr Ud, Inr Uc, Inr Ua, Inl StopIteration]"
  using add_node_mid_iteration[OF iteration_order_id] iteration_order_id by simp

subsection \<open>Reading a dictionary after an update\<close>

lemma dd_get_touch [simp]: "dd_get (dd_touch d k) k' = dd_get d k'"
  by (auto simp: dd_get_def dd_touch_def map_add_def split: option.splits if_splits
        dest!: map_of_SomeD intro: rev_image_eqI)

lemma dd_get_update [simp]: "dd_get (AList.update k v d) k' = (if k' = k then v else dd_get d k')"
  by (simp add: dd_get_def update_conv')

lemma dd_get_delete [simp]: "dd_get (AList.delete k d) k' = (if k' = k then [] else dd_get d k')"
  by (simp add: dd_get_def delete_conv')

lemma dd_get_add [simp]:
  "dd_get (dd_add d k x) k' = (if k' = k then set_add (dd_get d k) x else dd_get d k')"
  by (simp add: dd_add_def)

lemma dd_get_discard [simp]:
  "dd_get (dd_discard d k x) k' = (if k' = k then removeAll x (dd_get d k) else dd_get d k')"
  by (simp add: dd_discard_def)

lemma dd_get_prune [simp]: "dd_get (dd_prune d k) k' = dd_get d k'"
  by (simp add: dd_prune_def)

lemma set_set_add [simp]: "set (set_add s x) = insert x (set s)"
  by (auto simp: set_add_def)

lemma dd_get_fold_touch [simp]: "dd_get (fold (\<lambda>k d. dd_touch d k) ks d) k' = dd_get d k'"
  by (induction ks arbitrary: d) simp_all

lemma dd_get_fold_delete:
  "dd_get (fold AList.delete ks d) k' = (if k' \<in> set ks then [] else dd_get d k')"
  by (induction ks arbitrary: d) auto

lemma set_dd_get_register:
  "set (dd_get (register_node it node rel d) k) =
     (if k \<in> set rel \<and> k \<in> set (nodes it) \<and> node \<notin> set (lst it)
      then insert node (set (dd_get d k)) else set (dd_get d k))"
  unfolding register_node_def
  by (induction rel arbitrary: d) auto

lemma set_dd_get_unregister:
  "set (dd_get (unregister_node node rel d) k) =
     (if k \<in> set rel then set (dd_get d k) - {node} else set (dd_get d k))"
  unfolding unregister_node_def
  by (induction rel arbitrary: d) auto

lemma distinct_keys_touch [simp]: "distinct (map fst (dd_touch d k)) = distinct (map fst d)"
  by (auto simp: dd_touch_def)

lemma distinct_keys_add [simp]: "distinct (map fst d) \<Longrightarrow> distinct (map fst (dd_add d k x))"
  by (simp add: dd_add_def distinct_update)

lemma distinct_keys_discard [simp]: "distinct (map fst d) \<Longrightarrow> distinct (map fst (dd_discard d k x))"
  by (simp add: dd_discard_def distinct_update)

lemma distinct_keys_prune [simp]: "distinct (map fst d) \<Longrightarrow> distinct (map fst (dd_prune d k))"
  by (simp add: dd_prune_def distinct_delete)

lemma distinct_keys_fold_touch [simp]:
  "distinct (map fst (fold (\<lambda>k d. dd_touch d k) ks d)) = distinct (map fst d)"
  by (induction ks arbitrary: d) simp_all

lemma distinct_keys_fold_delete [simp]:
  "distinct (map fst d) \<Longrightarrow> distinct (map fst (fold AList.delete ks d))"
  by (induction ks arbitrary: d) (simp_all add: distinct_delete)

lemma distinct_keys_register [simp]:
  "distinct (map fst d) \<Longrightarrow> distinct (map fst (register_node it node rel d))"
  unfolding register_node_def by (induction rel arbitrary: d) simp_all

lemma distinct_keys_unregister [simp]:
  "distinct (map fst d) \<Longrightarrow> distinct (map fst (unregister_node node rel d))"
  unfolding unregister_node_def by (induction rel arbitrary: d) simp_all

lemma mset_fold_remove1: "mset ys \<subseteq># mset xs \<Longrightarrow> mset (fold remove1 ys xs) = mset xs - mset ys"
proof (induction ys arbitrary: xs)
  case Nil
  then show ?case by simp
next
  case (Cons y ys)
  have "y \<in> set xs" using Cons.prems
    by (metis insert_subset_eq_iff mset.simps(2) set_mset_mset mset_subset_eqD union_single_eq_member)
  have "mset ys \<subseteq># mset (remove1 y xs)"
    using Cons.prems by (simp add: insert_subset_eq_iff)
  from Cons.IH[OF this] show ?case by (simp add: diff_diff_add_mset)
qed

lemma set_fold_remove1_filter:
  "set (fold remove1 (filter P xs) xs) = {x \<in> set xs. \<not> P x}"
proof -
  have "mset (fold remove1 (filter P xs) xs) = mset xs - mset (filter P xs)"
    by (rule mset_fold_remove1) simp
  also have "\<dots> = mset (filter (\<lambda>x. \<not> P x) xs)"
    by (metis add_diff_cancel_left' mset_filter multiset_partition)
  finally have "set (fold remove1 (filter P xs) xs) = set (filter (\<lambda>x. \<not> P x) xs)"
    by (rule mset_eq_setD)
  then show ?thesis by simp
qed

subsection \<open>What \<^verbatim>\<open>add_node\<close> changes\<close>

lemma lst_add_node [simp]: "lst (add_node h n it) = lst it"
  by (simp add: add_node_def cleanup_stack_def add_known_def push_ready_def set_dependents_def
      set_pending_def note_before_def note_after_def)

lemma nodes_add_node:
  "set (nodes (add_node h n it)) = (if n \<in> set (lst it) then set (nodes it) else insert n (set (nodes it)))"
  by (simp add: add_node_def cleanup_stack_def add_known_def push_ready_def set_dependents_def
      set_pending_def note_before_def note_after_def)

lemma pending_add_node:
  assumes "n \<notin> set (lst it)"
  shows "pending (add_node h n it) x =
     (if x = n \<and> unit_after (h n) \<noteq> []
      then {u \<in> set (unit_after (h n)). u \<in> set (nodes it) \<and> u \<notin> set (lst it)}
      else if x \<in> set (unit_before (h n)) \<and> x \<in> set (nodes it)
           then insert n (pending it x) else pending it x)"
  using assms
  by (auto simp: pending_def add_node_def cleanup_stack_def add_known_def push_ready_def
      set_dependents_def set_pending_def note_before_def note_after_def set_dd_get_register)

lemma stack_add_node:
  assumes "n \<notin> set (lst it)"
  shows "set (stack (add_node h n it)) \<subseteq>
           {s \<in> insert n (set (stack it)). pending (add_node h n it) s = {}}"
  using assms
  by (auto simp: pending_def add_node_def cleanup_stack_def add_known_def push_ready_def
      set_dependents_def set_pending_def note_before_def note_after_def set_dd_get_register
      set_fold_remove1_filter split: if_splits)

lemma distinct_after_add_node:
  "distinct (map fst (after it)) \<Longrightarrow> distinct (map fst (after (add_node h n it)))"
  by (simp add: add_node_def cleanup_stack_def add_known_def push_ready_def set_dependents_def
      set_pending_def note_before_def note_after_def distinct_update)

lemma symmetric_registered: "symmetric_relations h \<Longrightarrow> after_registered h"
  by (simp add: symmetric_relations_def after_registered_def)

lemma sound_add_node_registered:
  assumes "after_registered h" "irreflexive_relations h" "sound h it"
  shows "sound h (add_node h n it)"
proof (cases "n \<in> set (lst it)")
  case True
  then show ?thesis using assms by (simp add: add_node_def)
next
  case False
  have sym: "\<And>x u. u \<in> set (unit_after (h x)) \<Longrightarrow> x \<in> set (unit_before (h u))"
    using assms(1) by (simp add: after_registered_def)
  have irr: "\<And>x. x \<notin> set (unit_after (h x))"
    using assms(2) by (simp add: irreflexive_relations_def)
  have d: "distinct (map fst (after (add_node h n it)))"
    using assms(3) by (simp add: sound_def distinct_after_add_node)
  have s: "\<forall>x \<in> set (stack (add_node h n it)). pending (add_node h n it) x = {}"
    using stack_add_node[OF False, of h] by blast
  have p: "\<forall>x \<in> set (nodes (add_node h n it)). \<forall>u \<in> set (unit_after (h x)).
            u \<in> set (nodes (add_node h n it)) \<longrightarrow>
              u \<in> set (lst (add_node h n it)) \<or> conflict h (lst (add_node h n it)) u
              \<or> u \<in> pending (add_node h n it) x"
  proof (intro ballI impI)
    fix x u
    assume x: "x \<in> set (nodes (add_node h n it))" and u: "u \<in> set (unit_after (h x))"
      and un: "u \<in> set (nodes (add_node h n it))"
    have ux: "u \<noteq> x" using irr u by auto
    show "u \<in> set (lst (add_node h n it)) \<or> conflict h (lst (add_node h n it)) u
              \<or> u \<in> pending (add_node h n it) x"
    proof (cases "x = n")
      case True
      with u have ne: "unit_after (h n) \<noteq> []" by auto
      from un ux True False have "u \<in> set (nodes it)" by (simp add: nodes_add_node)
      with True ne u show ?thesis by (auto simp add: pending_add_node[OF False])
    next
      case xn: False
      with x False have xk: "x \<in> set (nodes it)" by (simp add: nodes_add_node)
      show ?thesis
      proof (cases "u = n")
        case True
        with u sym have "x \<in> set (unit_before (h n))" by blast
        with xk xn True show ?thesis by (simp add: pending_add_node[OF False])
      next
        case False
        with un \<open>n \<notin> set (lst it)\<close> have "u \<in> set (nodes it)" by (simp add: nodes_add_node)
        with assms(3) xk u have "u \<in> set (lst it) \<or> conflict h (lst it) u \<or> u \<in> pending it x"
          by (auto simp: sound_def)
        with xn show ?thesis by (auto simp: pending_add_node[OF \<open>n \<notin> set (lst it)\<close>])
      qed
    qed
  qed
  from d s p show ?thesis unfolding sound_def by blast
qed

lemma sound_add_node:
  assumes "symmetric_relations h" "irreflexive_relations h" "sound h it"
  shows "sound h (add_node h n it)"
  by (rule sound_add_node_registered[OF symmetric_registered[OF assms(1)] assms(2,3)])

subsection \<open>What \<^verbatim>\<open>remove_node\<close> changes\<close>

lemma rescan_fold:
  "lst (fold rescan_step ns it) = lst it
   \<and> nodes (fold rescan_step ns it) = nodes it
   \<and> (\<forall>x. pending (fold rescan_step ns it) x = pending it x)
   \<and> (distinct (map fst (after it)) \<longrightarrow> distinct (map fst (after (fold rescan_step ns it))))
   \<and> (\<forall>s \<in> set (stack (fold rescan_step ns it)). s \<in> set (stack it) \<or> pending it s = {})"
proof (induction ns arbitrary: it)
  case Nil
  then show ?case by simp
next
  case (Cons n ns)
  have step: "lst (rescan_step n it) = lst it" "nodes (rescan_step n it) = nodes it"
    "\<And>x. pending (rescan_step n it) x = pending it x"
    "distinct (map fst (after it)) \<Longrightarrow> distinct (map fst (after (rescan_step n it)))"
    "\<forall>s \<in> set (stack (rescan_step n it)). s \<in> set (stack it) \<or> pending it s = {}"
    by (auto simp: rescan_step_def pending_def fun_eq_iff)
  from Cons.IH[of "rescan_step n it"] step show ?case
    by (simp del: fold_simps add: fold_Cons [unfolded comp_def]) blast
qed

lemma lst_remove_node [simp]: "lst (snd (remove_node ord h n it)) = lst it"
  by (simp add: remove_node_def forget_node_def rescan_def drop_bookkeeping_def rescan_fold)

lemma nodes_remove_node:
  "set (nodes (snd (remove_node ord h n it))) \<subseteq> set (nodes it)"
  by (auto simp: remove_node_def forget_node_def rescan_def drop_bookkeeping_def rescan_fold)

lemma nodes_remove_node_gone:
  "fst (remove_node ord h n it) = None \<Longrightarrow> n \<notin> set (nodes (snd (remove_node ord h n it)))"
  by (auto simp: remove_node_def forget_node_def rescan_def drop_bookkeeping_def rescan_fold
      split: if_splits)

lemma pending_drop_bookkeeping:
  "pending (drop_bookkeeping h n it) x =
     (if x = n then {} else if x \<in> set (unit_before (h n)) then pending it x - {n} else pending it x)"
  by (simp add: pending_def drop_bookkeeping_def set_dd_get_unregister)

lemma sound_remove_node:
  assumes "sound h it"
  shows "sound h (snd (remove_node ord h n it))"
proof (cases "n \<in> set (lst it)")
  case True
  then show ?thesis using assms by (simp add: remove_node_def)
next
  case False
  let ?d = "drop_bookkeeping h n it"
  have dd: "distinct (map fst (after ?d))"
    using assms by (simp add: sound_def drop_bookkeeping_def distinct_delete)
  have st: "set (stack ?d) \<subseteq> set (stack it)"
    using set_remove1_subset[of n "stack it"] by (simp add: drop_bookkeeping_def)
  have ds: "\<forall>x \<in> set (stack ?d). pending ?d x = {}"
    using assms st by (auto simp: sound_def pending_drop_bookkeeping)
  have dl: "lst ?d = lst it" "nodes ?d = nodes it" by (simp_all add: drop_bookkeeping_def)
  show ?thesis
  proof (cases "n \<in> set (nodes it)")
    case nk: False
    then have r: "snd (remove_node ord h n it) = ?d"
      using False by (simp add: remove_node_def forget_node_def dl)
    have "\<forall>x \<in> set (nodes ?d). \<forall>u \<in> set (unit_after (h x)).
            u \<in> set (nodes ?d) \<longrightarrow> u \<in> set (lst ?d) \<or> conflict h (lst ?d) u \<or> u \<in> pending ?d x"
      using assms nk by (auto simp: sound_def dl pending_drop_bookkeeping)
    with dd ds show ?thesis unfolding r sound_def by blast
  next
    case nk: True
    let ?e = "?d\<lparr>nodes := removeAll n (nodes ?d)\<rparr>"
    let ?r = "fold rescan_step (ord (removeAll n (nodes ?d))) ?e"
    have r: "snd (remove_node ord h n it) = ?r"
      using False nk by (simp add: remove_node_def forget_node_def dl rescan_def)
    have pe: "\<And>x. pending ?e x = pending ?d x" by (simp add: pending_def)
    have de: "distinct (map fst (after ?e))" "lst ?e = lst it"
      "set (nodes ?e) = set (nodes it) - {n}" "stack ?e = stack ?d"
      using dd by (simp_all add: dl)
    note rf = rescan_fold[of "ord (removeAll n (nodes ?d))" ?e, unfolded pe]
    have f: "lst ?r = lst it" "set (nodes ?r) = set (nodes it) - {n}"
      "\<And>x. pending ?r x = pending ?d x"
      "distinct (map fst (after ?r))"
      "\<forall>s \<in> set (stack ?r). s \<in> set (stack ?d) \<or> pending ?d s = {}"
      using rf de by auto
    have s: "\<forall>x \<in> set (stack ?r). pending ?r x = {}"
      using f(5) ds by (auto simp: f(3))
    have p: "\<forall>x \<in> set (nodes ?r). \<forall>u \<in> set (unit_after (h x)).
            u \<in> set (nodes ?r) \<longrightarrow> u \<in> set (lst ?r) \<or> conflict h (lst ?r) u \<or> u \<in> pending ?r x"
      using assms by (auto simp: sound_def f pending_drop_bookkeeping)
    from f(4) s p show ?thesis unfolding r sound_def by blast
  qed
qed

subsection \<open>What \<^verbatim>\<open>__next__\<close> changes\<close>

lemma refill_Inr:
  assumes "refill it = Inr it1"
  shows "lst it1 = lst it" "nodes it1 = nodes it" "stack it1 \<noteq> []"
    and "distinct (map fst (after it)) \<Longrightarrow> distinct (map fst (after it1))"
    and "distinct (map fst (after it)) \<Longrightarrow> pending it1 x = pending it x"
    and "distinct (map fst (after it)) \<Longrightarrow> \<forall>s \<in> set (stack it). pending it s = {}
           \<Longrightarrow> \<forall>s \<in> set (stack it1). pending it1 s = {}"
proof -
  show "lst it1 = lst it" "nodes it1 = nodes it" "stack it1 \<noteq> []"
    using assms by (auto simp: refill_def rescue_delete_def rescue_promote_def split: if_splits)
  show "distinct (map fst (after it1))" if "distinct (map fst (after it))"
    using assms that by (auto simp: refill_def rescue_delete_def rescue_promote_def split: if_splits)
  have empty: "dd_get (after it) k = []"
    if "distinct (map fst (after it))" "(k, []) \<in> set (after it)" for k
    using that by (simp add: dd_get_def)
  show p: "pending it1 x = pending it x" if "distinct (map fst (after it))"
    using assms that
    by (auto simp: refill_def rescue_delete_def rescue_promote_def pending_def dd_get_fold_delete
        empty split: if_splits)
  show "\<forall>s \<in> set (stack it1). pending it1 s = {}"
    if "distinct (map fst (after it))" "\<forall>s \<in> set (stack it). pending it s = {}"
    using assms that
    by (auto simp: refill_def rescue_delete_def rescue_promote_def pending_def dd_get_fold_delete
        split: if_splits)
qed

lemma removeAll_eq_Nil: "(removeAll x xs = []) = (set xs - {x} = {})"
  by (metis set_empty set_removeAll)

lemma release_step_effect:
  "lst (release_step node other it) = lst it"
  "nodes (release_step node other it) = nodes it"
  "distinct (map fst (after it)) \<Longrightarrow> distinct (map fst (after (release_step node other it)))"
  "pending (release_step node other it) x = (if x = other then pending it x - {node} else pending it x)"
  "set (stack (release_step node other it)) =
     (if pending it other - {node} = {} then insert other (set (stack it)) else set (stack it))"
  by (auto simp: release_step_def promote_def pending_def distinct_delete removeAll_eq_Nil)

lemma release_fold_lst [simp]: "lst (fold (release_step node) os it) = lst it"
  by (induction os arbitrary: it) (simp_all add: release_step_effect)

lemma release_fold_nodes [simp]: "nodes (fold (release_step node) os it) = nodes it"
  by (induction os arbitrary: it) (simp_all add: release_step_effect)

lemma release_fold_distinct:
  "distinct (map fst (after it)) \<Longrightarrow> distinct (map fst (after (fold (release_step node) os it)))"
  by (induction os arbitrary: it) (simp_all add: release_step_effect)

lemma release_fold_pending:
  "pending (fold (release_step node) os it) x
     = (if x \<in> set os then pending it x - {node} else pending it x)"
  by (induction os arbitrary: it) (auto simp: release_step_effect)

lemma release_fold_stack:
  assumes "s \<in> set (stack (fold (release_step node) os it))"
  shows "s \<in> set (stack it) \<or> pending (fold (release_step node) os it) s = {}"
  using assms
proof (induction os arbitrary: it)
  case Nil
  then show ?case by simp
next
  case (Cons other os)
  from Cons.IH[of "release_step node other it"] Cons.prems
  have "s \<in> set (stack (release_step node other it))
        \<or> pending (fold (release_step node) (other # os) it) s = {}"
    by simp
  then show ?case
  proof
    assume "s \<in> set (stack (release_step node other it))"
    then have "s \<in> set (stack it) \<or> (s = other \<and> pending it other - {node} = {})"
      by (auto simp: release_step_effect split: if_splits)
    then show ?thesis
      by (auto simp: release_fold_pending release_step_effect)
  qed simp
qed

lemma release_effect:
  "lst (release ord node it) = lst it"
  "nodes (release ord node it) = nodes it"
  "distinct (map fst (after it)) \<Longrightarrow> distinct (map fst (after (release ord node it)))"
  "pending (release ord node it) x \<subseteq> pending it x"
  "pending it x - {node} \<subseteq> pending (release ord node it) x"
  "s \<in> set (stack (release ord node it)) \<Longrightarrow>
     s \<in> set (stack it) \<or> pending (release ord node it) s = {}"
proof -
  let ?it = "it\<lparr>before := dd_touch (before it) node\<rparr>"
  have p: "pending ?it = pending it" by (simp add: pending_def fun_eq_iff)
  show "lst (release ord node it) = lst it" "nodes (release ord node it) = nodes it"
    by (simp_all add: release_def)
  show "distinct (map fst (after (release ord node it)))" if "distinct (map fst (after it))"
    using that release_fold_distinct[of ?it] by (simp add: release_def)
  show "pending (release ord node it) x \<subseteq> pending it x"
    "pending it x - {node} \<subseteq> pending (release ord node it) x"
    by (auto simp: release_def release_fold_pending p)
  show "s \<in> set (stack it) \<or> pending (release ord node it) s = {}"
    if "s \<in> set (stack (release ord node it))"
    using release_fold_stack[of s node _ ?it] that by (simp add: release_def)
qed

lemma conflict_append: "conflict h xs u \<Longrightarrow> conflict h (xs @ ys) u"
  by (auto simp: conflict_def list_ex_iff)

lemma kahn_next_lst_step:
  assumes "kahn_next ord h it = Some res"
  shows "lst_step h it res"
proof (rule kahn_next.raw_induct[where P = "\<lambda>ord h it res. lst_step h it res", OF _ assms],
    goal_cases)
  case (1 kahn_next' ord h it res)
  show ?case
  proof (cases "refill it")
    case (Inl e)
    with 1(2) show ?thesis by (auto simp: lst_step_def)
  next
    case (Inr it1)
    note rf = refill_Inr(1-3)[OF Inr]
    then obtain node rest where st: "stack it1 = node # rest" by (cases "stack it1") auto
    let ?it2 = "release ord node (it1\<lparr>stack := rest\<rparr>)"
    have pr: "pop_release ord it1 = Some (node, ?it2)" by (simp add: pop_release_def st)
    have l2: "lst ?it2 = lst it" by (simp add: release_effect rf)
    show ?thesis
    proof (cases "conflict h (lst ?it2) node")
      case True
      with 1(2) Inr pr have "kahn_next' ord h ?it2 = Some res" by simp
      from 1(1)[OF this] show ?thesis unfolding lst_step_def l2 .
    next
      case False
      with 1(2) Inr pr have "res = (Inr node, ?it2\<lparr>lst := lst ?it2 @ [node]\<rparr>)" by auto
      with False l2 show ?thesis by (simp add: lst_step_def)
    qed
  qed
qed

lemma sound_refill:
  assumes "refill it = Inr it1" "sound h it"
  shows "sound h it1"
  using assms refill_Inr[OF assms(1)] unfolding sound_def by auto

lemma sound_pop_skip:
  assumes "sound h it1" "stack it1 = node # rest" "conflict h (lst it1) node"
  shows "sound h (release ord node (it1\<lparr>stack := rest\<rparr>))"
proof -
  let ?it0 = "it1\<lparr>stack := rest\<rparr>"
  let ?it2 = "release ord node ?it0"
  have p0: "\<And>x. pending ?it0 x = pending it1 x" by (simp add: pending_def)
  have d: "distinct (map fst (after ?it2))"
    using assms(1) release_effect(3)[of ?it0] by (simp add: sound_def)
  have s: "\<forall>x \<in> set (stack ?it2). pending ?it2 x = {}"
  proof
    fix x assume "x \<in> set (stack ?it2)"
    from release_effect(6)[OF this] show "pending ?it2 x = {}"
      using assms(1,2) release_effect(4)[of ord node ?it0 x] by (auto simp: sound_def p0)
  qed
  have p: "\<forall>x \<in> set (nodes ?it2). \<forall>u \<in> set (unit_after (h x)).
            u \<in> set (nodes ?it2) \<longrightarrow> u \<in> set (lst ?it2) \<or> conflict h (lst ?it2) u \<or> u \<in> pending ?it2 x"
  proof (intro ballI impI)
    fix x u assume "x \<in> set (nodes ?it2)" "u \<in> set (unit_after (h x))" "u \<in> set (nodes ?it2)"
    then have "u \<in> set (lst it1) \<or> conflict h (lst it1) u \<or> u \<in> pending it1 x"
      using assms(1) by (auto simp: sound_def release_effect)
    then show "u \<in> set (lst ?it2) \<or> conflict h (lst ?it2) u \<or> u \<in> pending ?it2 x"
      using assms(3) release_effect(5)[of ?it0 x node ord] by (auto simp: release_effect p0)
  qed
  from d s p show ?thesis unfolding sound_def by blast
qed

lemma pending_updates [simp]:
  "pending (it\<lparr>lst := l\<rparr>) x = pending it x"
  "pending (it\<lparr>stack := s\<rparr>) x = pending it x"
  "pending (it\<lparr>nodes := n\<rparr>) x = pending it x"
  "pending (it\<lparr>before := b\<rparr>) x = pending it x"
  by (simp_all add: pending_def)

lemma sound_pop_produce:
  assumes "sound h it1" "stack it1 = node # rest"
  shows "sound h (release ord node (it1\<lparr>stack := rest\<rparr>)\<lparr>lst := lst it1 @ [node]\<rparr>)"
    and "node \<in> set (nodes it1) \<Longrightarrow> u \<in> set (unit_after (h node)) \<Longrightarrow> u \<in> set (nodes it1)
          \<Longrightarrow> u \<in> set (lst it1) \<or> conflict h (lst it1) u"
proof -
  let ?it0 = "it1\<lparr>stack := rest\<rparr>"
  let ?it2 = "release ord node ?it0"
  let ?it' = "?it2\<lparr>lst := lst it1 @ [node]\<rparr>"
  have l2: "lst ?it2 = lst it1" "nodes ?it2 = nodes it1" by (simp_all add: release_effect)
  have pn: "pending it1 node = {}" using assms(1,2) by (simp add: sound_def)
  show "u \<in> set (lst it1) \<or> conflict h (lst it1) u"
    if "node \<in> set (nodes it1)" "u \<in> set (unit_after (h node))" "u \<in> set (nodes it1)"
  proof -
    from assms(1) that have "u \<in> set (lst it1) \<or> conflict h (lst it1) u \<or> u \<in> pending it1 node"
      unfolding sound_def by blast
    with pn show ?thesis by simp
  qed
  have d: "distinct (map fst (after ?it'))"
    using assms(1) release_effect(3)[of ?it0] by (simp add: sound_def)
  have s: "\<forall>x \<in> set (stack ?it'). pending ?it' x = {}"
  proof
    fix x assume "x \<in> set (stack ?it')"
    then have "x \<in> set (stack ?it2)" by simp
    from release_effect(6)[OF this] have "x \<in> set rest \<or> pending ?it2 x = {}" by simp
    moreover have "pending ?it2 x \<subseteq> pending it1 x"
      using release_effect(4)[of ord node ?it0 x] by simp
    moreover have "x \<in> set rest \<Longrightarrow> pending it1 x = {}"
      using assms(1,2) by (simp add: sound_def)
    ultimately show "pending ?it' x = {}" by auto
  qed
  have p: "\<forall>x \<in> set (nodes ?it'). \<forall>u \<in> set (unit_after (h x)).
            u \<in> set (nodes ?it') \<longrightarrow> u \<in> set (lst ?it') \<or> conflict h (lst ?it') u \<or> u \<in> pending ?it' x"
  proof (intro ballI impI)
    fix x u assume "x \<in> set (nodes ?it')" "u \<in> set (unit_after (h x))" "u \<in> set (nodes ?it')"
    then have "u \<in> set (lst it1) \<or> conflict h (lst it1) u \<or> u \<in> pending it1 x"
      using assms(1) unfolding sound_def by (simp add: l2)
    moreover have "pending it1 x - {node} \<subseteq> pending ?it2 x"
      using release_effect(5)[of ?it0 x node ord] by simp
    ultimately show "u \<in> set (lst ?it') \<or> conflict h (lst ?it') u \<or> u \<in> pending ?it' x"
      using conflict_append[of h "lst it1" u "[node]"] by auto
  qed
  from d s p show "sound h ?it'" unfolding sound_def by blast
qed

lemma kahn_next_sound_step:
  assumes "kahn_next ord h it = Some res"
  shows "sound h it \<longrightarrow> sound_step h it res"
proof (rule kahn_next.raw_induct[where P = "\<lambda>ord h it res. sound h it \<longrightarrow> sound_step h it res",
      OF _ assms], goal_cases)
  case (1 kahn_next' ord h it res)
  show ?case
  proof
    assume snd: "sound h it"
    show "sound_step h it res"
    proof (cases "refill it")
      case (Inl e)
      with 1(2) snd show ?thesis by (auto simp: sound_step_def)
    next
      case (Inr it1)
      note rf = refill_Inr(1-3)[OF Inr]
      have s1: "sound h it1" by (rule sound_refill[OF Inr snd])
      from rf obtain node rest where st: "stack it1 = node # rest" by (cases "stack it1") auto
      let ?it2 = "release ord node (it1\<lparr>stack := rest\<rparr>)"
      have pr: "pop_release ord it1 = Some (node, ?it2)" by (simp add: pop_release_def st)
      have l2: "lst ?it2 = lst it" "nodes ?it2 = nodes it" by (simp_all add: release_effect rf)
      show ?thesis
      proof (cases "conflict h (lst ?it2) node")
        case True
        with 1(2) Inr pr have k: "kahn_next' ord h ?it2 = Some res" by simp
        have "sound h ?it2" using sound_pop_skip[OF s1 st] True by (simp add: l2 rf)
        with 1(1)[OF k] have "sound_step h ?it2 res" by blast
        then show ?thesis unfolding sound_step_def l2 .
      next
        case False
        with 1(2) Inr pr have r: "res = (Inr node, ?it2\<lparr>lst := lst ?it2 @ [node]\<rparr>)" by auto
        from sound_pop_produce(1)[OF s1 st, where ord = ord] sound_pop_produce(2)[OF s1 st] show ?thesis
          unfolding r sound_step_def by (simp add: l2 rf)
      qed
    qed
  qed
qed

lemma sound_empty: "sound h empty_kahn"
  by (simp add: sound_def empty_kahn_def)

lemma run_ops_sound_registered:
  assumes "after_registered h" "irreflexive_relations h"
  shows "sound h it \<Longrightarrow> run_ops ord h ops it = Some (rs, it') \<Longrightarrow> sound h it'"
proof (induction ops arbitrary: it rs)
  case Nil
  then show ?case by simp
next
  case (Cons op ops)
  show ?case
  proof (cases op)
    case (AddNode n)
    with Cons.prems Cons.IH[OF sound_add_node_registered[OF assms Cons.prems(1)]] show ?thesis by simp
  next
    case (RemoveNode n)
    with Cons.prems Cons.IH[OF sound_remove_node[OF Cons.prems(1)]] show ?thesis by simp
  next
    case Next
    with Cons.prems(2) obtain r it1 rs1 where k: "kahn_next ord h it = Some (r, it1)"
      and r: "run_ops ord h ops it1 = Some (rs1, it')"
      by (auto split: option.splits)
    from kahn_next_sound_step[OF k] Cons.prems(1) have "sound h it1" by (simp add: sound_step_def)
    from Cons.IH[OF this r] show ?thesis .
  qed
qed

lemma run_ops_sound:
  assumes "symmetric_relations h" "irreflexive_relations h"
  shows "sound h it \<Longrightarrow> run_ops ord h ops it = Some (rs, it') \<Longrightarrow> sound h it'"
  by (rule run_ops_sound_registered[OF symmetric_registered[OF assms(1)] assms(2)])

subsection \<open>Topological soundness\<close>

text \<open>
  C1 (as amended). For a heap with symmetric and irreflexive relations and any sequence
  of \<^verbatim>\<open>add_node\<close>, \<^verbatim>\<open>remove_node\<close> and \<^verbatim>\<open>next\<close> calls on a fresh iterator: when
  \<^verbatim>\<open>next()\<close> then returns a unit \<open>x\<close> that is known to the iterator, every known unit \<open>u\<close>
  of \<^verbatim>\<open>x.after\<close> has been produced before \<open>x\<close>, or is shut out by exclusive-group
  arbitration (a produced unit belongs to one of the exclusive groups of \<open>u\<close>).
\<close>

theorem next_respects_after:
  assumes "symmetric_relations h" "irreflexive_relations h"
    and "run_ops ord h ops empty_kahn = Some (rs, it)"
    and "kahn_next ord h it = Some (Inr x, it')"
    and "x \<in> set (nodes it)" "u \<in> set (unit_after (h x))" "u \<in> set (nodes it)"
  shows "lst it' = lst it @ [x] \<and> (u \<in> set (lst it) \<or> conflict h (lst it) u)"
proof -
  have "sound h it" by (rule run_ops_sound[OF assms(1,2) sound_empty assms(3)])
  with kahn_next_sound_step[OF assms(4)] have "sound_step h it (Inr x, it')" by blast
  with assms(5-7) have "u \<in> set (lst it) \<or> conflict h (lst it) u"
    by (simp add: sound_step_def)
  moreover from kahn_next_lst_step[OF assms(4)] have "lst it' = lst it @ [x]"
    by (simp add: lst_step_def)
  ultimately show ?thesis by simp
qed

lemma closed_nodes_symmetric: "symmetric_relations closed_nodes"
  unfolding symmetric_relations_def
proof (intro allI)
  fix x u show "(u \<in> set (unit_after (closed_nodes x))) = (x \<in> set (unit_before (closed_nodes u)))"
    by (cases x; cases u; simp)
qed

lemma closed_nodes_irreflexive: "irreflexive_relations closed_nodes"
  unfolding irreflexive_relations_def
proof
  fix x show "x \<notin> set (unit_after (closed_nodes x))" by (cases x) simp_all
qed

theorem next_respects_after_witness:
  "symmetric_relations closed_nodes \<and> irreflexive_relations closed_nodes
   \<and> run_ops (\<lambda>xs. xs) closed_nodes [AddNode Ua, AddNode Ub, AddNode Uc, Next] empty_kahn
       = Some ([Inr Ub], \<lparr>after = [(Ua, [Uc]), (Ub, [])], lst = [Ub], stack = [Uc],
                          before = [(Ub, [Ua, Uc]), (Uc, [Ua])], nodes = [Ua, Ub, Uc]\<rparr>)
   \<and> kahn_next (\<lambda>xs. xs) closed_nodes
         \<lparr>after = [(Ua, [Uc]), (Ub, [])], lst = [Ub], stack = [Uc],
          before = [(Ub, [Ua, Uc]), (Uc, [Ua])], nodes = [Ua, Ub, Uc]\<rparr>
       = Some (Inr Uc, \<lparr>after = [(Ub, [])], lst = [Ub, Uc], stack = [Ua],
                         before = [(Ub, [Ua, Uc]), (Uc, [Ua])], nodes = [Ua, Ub, Uc]\<rparr>)
   \<and> Ub \<in> set (unit_after (closed_nodes Uc))
   \<and> (Ub \<in> set [Ub] \<or> conflict closed_nodes [Ub] Ub)"
proof -
  let ?it = "\<lparr>after = [(Ua, [Uc]), (Ub, [])], lst = [Ub], stack = [Uc],
             before = [(Ub, [Ua, Uc]), (Uc, [Ua])], nodes = [Ua, Ub, Uc]\<rparr>"
  let ?it' = "\<lparr>after = [(Ub, [])], lst = [Ub, Uc], stack = [Ua],
              before = [(Ub, [Ua, Uc]), (Uc, [Ua])], nodes = [Ua, Ub, Uc]\<rparr>"
  have r: "run_ops (\<lambda>xs. xs) closed_nodes [AddNode Ua, AddNode Ub, AddNode Uc, Next] empty_kahn
             = Some ([Inr Ub], ?it)"
    by (simp add: kahn_eval)
  have k: "kahn_next (\<lambda>xs. xs) closed_nodes ?it = Some (Inr Uc, ?it')"
    by (simp add: kahn_eval)
  have m: "Uc \<in> set (nodes ?it)" "Ub \<in> set (unit_after (closed_nodes Uc))" "Ub \<in> set (nodes ?it)"
    by simp_all
  from next_respects_after[OF closed_nodes_symmetric closed_nodes_irreflexive r k m]
  have "Ub \<in> set [Ub] \<or> conflict closed_nodes [Ub] Ub" by simp
  with closed_nodes_symmetric closed_nodes_irreflexive r k m(2) show ?thesis by blast
qed

lemma group_units_symmetric: "symmetric_relations group_units"
  unfolding symmetric_relations_def
proof (intro allI)
  fix x u show "(u \<in> set (unit_after (group_units x))) = (x \<in> set (unit_before (group_units u)))"
    by (cases x; cases u; simp)
qed

lemma group_units_irreflexive: "irreflexive_relations group_units"
  unfolding irreflexive_relations_def
proof
  fix x show "x \<notin> set (unit_after (group_units x))" by (cases x) simp_all
qed

lemma group_units_acyclic: "acyclic (after_edges group_units)"
proof -
  let ?rank = "\<lambda>u. case u of Uz \<Rightarrow> 0 | Ux \<Rightarrow> 1 | Uw \<Rightarrow> 2 | _ \<Rightarrow> (0::nat)"
  have "after_edges group_units \<subseteq> measure ?rank"
  proof
    fix p assume "p \<in> after_edges group_units"
    then obtain u x where p: "p = (u, x)" "u \<in> set (unit_after (group_units x))"
      by (auto simp: after_edges_def)
    then show "p \<in> measure ?rank" by (cases x) auto
  qed
  then show ?thesis by (rule acyclic_subset[OF wf_acyclic[OF wf_measure]])
qed

text \<open>
  C1, as stated, fails: \<open>w\<close> runs after \<open>x\<close>, and \<open>x\<close>, \<open>y\<close> belong to one exclusive group.
  With \<open>y\<close>, \<open>x\<close>, \<open>w\<close> in the iterator, the first call returns \<open>y\<close>; the second pops \<open>x\<close>,
  releases \<open>w\<close>, skips \<open>x\<close> because \<open>y\<close> was produced, and returns \<open>w\<close>, while \<open>x\<close> is in
  \<^verbatim>\<open>w.after\<close>, is known to the iterator and has not been produced.
\<close>

theorem skipped_unit_releases_dependents:
  "symmetric_relations group_units \<and> irreflexive_relations group_units
   \<and> acyclic (after_edges group_units)
   \<and> run_ops (\<lambda>xs. xs) group_units [AddNode Uy, AddNode Ux, AddNode Uw, Next, Next] empty_kahn
       = Some ([Inr Uy, Inr Uw],
          \<lparr>after = [(Uy, []), (Ux, [])], lst = [Uy, Uw], stack = [],
           before = [(Ux, [Uw]), (Uy, []), (Uw, [])], nodes = [Uy, Ux, Uw]\<rparr>)
   \<and> Ux \<in> set (unit_after (group_units Uw))
   \<and> Ux \<in> set (nodes \<lparr>after = [(Uy, []), (Ux, [])], lst = [Uy, Uw], stack = [],
           before = [(Ux, [Uw]), (Uy, []), (Uw, [])], nodes = [Uy, Ux, Uw]\<rparr>)
   \<and> Ux \<notin> set (lst \<lparr>after = [(Uy, []), (Ux, [])], lst = [Uy, Uw], stack = [],
           before = [(Ux, [Uw]), (Uy, []), (Uw, [])], nodes = [Uy, Ux, Uw]\<rparr>)"
  by (simp add: group_units_symmetric group_units_irreflexive group_units_acyclic kahn_eval)

subsection \<open>Units that all wait for one another\<close>

lemma raise_repeats:
  assumes "kahn_next ord h it = Some (Inl e, it)"
  shows "run_ops ord h (replicate n Next) it = Some (replicate n (Inl e), it)"
  by (induction n) (simp_all add: assms)

lemma keys_dd_touch: "fst ` set (dd_touch d k) = insert k (fst ` set d)"
  by (auto simp: dd_touch_def)

lemma keys_dd_add: "fst ` set (dd_add d k x) = insert k (fst ` set d)"
  by (simp add: dd_add_def dom_update)

lemma keys_register_node:
  "fst ` set (register_node it node rel d) \<subseteq> fst ` set d \<union> (set rel \<inter> set (nodes it))"
proof -
  have "fst ` set (fold (\<lambda>unit d. if unit \<in> set (nodes it) \<and> node \<notin> set (lst it)
                      then dd_add d unit node else d) rel d)
          \<subseteq> fst ` set d \<union> (set rel \<inter> set (nodes it))"
  proof (induction rel arbitrary: d)
    case Nil
    then show ?case by simp
  next
    case (Cons unit rel)
    from Cons.IH[of "if unit \<in> set (nodes it) \<and> node \<notin> set (lst it)
                      then dd_add d unit node else d"]
    show ?case by (auto simp: keys_dd_add split: if_splits)
  qed
  then show ?thesis by (simp add: register_node_def)
qed

lemma keys_fold_touch:
  "fst ` set (fold (\<lambda>k d. dd_touch d k) ks d) = fst ` set d \<union> set ks"
  by (induction ks arbitrary: d) (auto simp: keys_dd_touch)

lemma register_node_before_update [simp]:
  "register_node (it\<lparr>before := b\<rparr>) n rel d = register_node it n rel d"
  by (simp add: register_node_def)

lemma after_push_ready [simp]: "after (push_ready h n x) = after x"
  by (simp add: push_ready_def)

lemma after_set_dependents [simp]: "after (set_dependents h n x) = after x"
  by (simp add: set_dependents_def)

lemma keys_set_pending: "fst ` set (after (set_pending h n x)) \<subseteq> insert n (fst ` set (after x))"
  by (auto simp: set_pending_def dom_update)

lemma after_note_before [simp]:
  "after (note_before h n (note_after h n it)) = register_node it n (unit_before (h n)) (after it)"
  by (simp add: note_before_def note_after_def)

lemma stack_push_ready: "set (stack (push_ready h n x)) \<subseteq> insert n (set (stack x))"
  by (auto simp: push_ready_def)

lemma stack_before_push [simp]:
  "stack (set_dependents h n (set_pending h n (note_before h n (note_after h n it)))) = stack it"
  by (simp add: set_dependents_def set_pending_def note_before_def note_after_def)

lemma keys_add_node:
  "fst ` set (after (add_node h n it))
     \<subseteq> insert n (fst ` set (after it) \<union> set (nodes it) \<union> set (stack it))"
proof (cases "n \<in> set (lst it)")
  case True
  then have "add_node h n it = it" by (simp add: add_node_def)
  then show ?thesis by auto
next
  case False
  let ?a1 = "register_node it n (unit_before (h n)) (after it)"
  let ?q = "set_pending h n (note_before h n (note_after h n it))"
  let ?p = "push_ready h n (set_dependents h n ?q)"
  have k1: "fst ` set ?a1 \<subseteq> fst ` set (after it) \<union> set (nodes it)"
    using keys_register_node[of it n "unit_before (h n)" "after it"] by blast
  have "fst ` set (after ?q) \<subseteq> insert n (fst ` set ?a1)"
    using keys_set_pending[of h n "note_before h n (note_after h n it)"] by simp
  then have ap: "fst ` set (after ?p) \<subseteq> insert n (fst ` set ?a1)" by simp
  have sp: "set (stack ?p) \<subseteq> insert n (set (stack it))"
    using stack_push_ready[of h n "set_dependents h n ?q"] by simp
  have "after (add_node h n it) = fold (\<lambda>stack_node d. dd_touch d stack_node) (stack ?p) (after ?p)"
    using False by (simp add: add_node_def cleanup_stack_def add_known_def)
  then have e: "fst ` set (after (add_node h n it)) = fst ` set (after ?p) \<union> set (stack ?p)"
    by (simp only: keys_fold_touch)
  show ?thesis
  proof
    fix k assume "k \<in> fst ` set (after (add_node h n it))"
    then have "k \<in> fst ` set (after ?p) \<or> k \<in> set (stack ?p)" unfolding e by simp
    then show "k \<in> insert n (fst ` set (after it) \<union> set (nodes it) \<union> set (stack it))"
    proof
      assume "k \<in> fst ` set (after ?p)"
      with ap have "k = n \<or> k \<in> fst ` set ?a1" by blast
      with k1 show ?thesis by blast
    next
      assume "k \<in> set (stack ?p)"
      with sp show ?thesis by blast
    qed
  qed
qed

lemma tidy_add_node:
  assumes "tidy it"
  shows "tidy (add_node h n it)" and "set (nodes (add_node h n it)) = insert n (set (nodes it))"
proof -
  from assms have l: "n \<notin> set (lst it)" by (simp add: tidy_def)
  show n: "set (nodes (add_node h n it)) = insert n (set (nodes it))"
    using l by (simp add: nodes_add_node)
  have "set (stack (add_node h n it)) \<subseteq> insert n (set (stack it))"
    using stack_add_node[OF l, of h] by blast
  moreover note keys_add_node[of h n it]
  ultimately have "set (stack (add_node h n it)) \<subseteq> insert n (set (nodes it))"
    and "fst ` set (after (add_node h n it)) \<subseteq> insert n (set (nodes it))"
    using assms unfolding tidy_def by blast+
  then show "tidy (add_node h n it)"
    using assms unfolding tidy_def n by simp
qed

lemma fold_add_node_tidy:
  assumes "after_registered h" "irreflexive_relations h"
  shows "tidy it \<Longrightarrow> sound h it
     \<Longrightarrow> tidy (fold (add_node h) units it) \<and> sound h (fold (add_node h) units it)
         \<and> set (nodes (fold (add_node h) units it)) = set (nodes it) \<union> set units"
proof (induction units arbitrary: it)
  case Nil
  then show ?case by simp
next
  case (Cons n units)
  from Cons.IH[OF tidy_add_node(1)[OF Cons.prems(1)]
      sound_add_node_registered[OF assms Cons.prems(2)], of n]
  show ?case by (simp add: tidy_add_node(2)[OF Cons.prems(1)])
qed

lemma KahnIterator_tidy:
  assumes "after_registered h" "irreflexive_relations h"
  shows "tidy (KahnIterator h units)" "sound h (KahnIterator h units)"
    "set (nodes (KahnIterator h units)) = set units"
proof -
  have "tidy (empty_kahn :: 'a kahn)" by (simp add: tidy_def empty_kahn_def)
  from fold_add_node_tidy[OF assms this sound_empty, of units]
  show "tidy (KahnIterator h units)" "sound h (KahnIterator h units)"
    "set (nodes (KahnIterator h units)) = set units"
    by (simp_all add: KahnIterator_def empty_kahn_def)
qed

lemma conflict_Nil [simp]: "\<not> conflict h [] u"
  by (simp add: conflict_def list_ex_iff)

lemma waiting_entry:
  assumes "distinct (map fst (after it))" "(k, s) \<in> set (after it)"
  shows "set s = pending it k"
  using assms by (simp add: pending_def dd_get_def)

lemma all_waiting_raises:
  assumes d: "distinct (map fst (after it))"
    and st: "stack it = []"
    and w: "\<forall>k \<in> fst ` set (after it). pending it k \<noteq> {}"
    and ne: "after it \<noteq> []"
  shows "kahn_next ord h it = Some (Inl CycleException, it)"
proof -
  have e: "\<And>k s. (k, s) \<in> set (after it) \<Longrightarrow> s \<noteq> []"
  proof -
    fix k s assume m: "(k, s) \<in> set (after it)"
    then have "k \<in> fst ` set (after it)" by force
    with w waiting_entry[OF d m] show "s \<noteq> []" by auto
  qed
  then have f: "filter (\<lambda>(unit, units). units = []) (after it) = []"
    by (auto simp: filter_empty_conv)
  from ne obtain k s where "(k, s) \<in> set (after it)" by (cases "after it") auto
  with e have x: "list_ex (\<lambda>x. x \<noteq> []) (map snd (after it))"
    by (force simp: list_ex_iff)
  have "refill it = Inl CycleException"
    using st ne x by (simp add: refill_def rescue_delete_def rescue_promote_def f)
  then show ?thesis by (subst kahn_next.simps) simp
qed

lemma waiting_set_raises:
  assumes reg: "after_registered h" and irr: "irreflexive_relations h"
    and cyc: "\<forall>x\<in>set units. \<exists>u\<in>set units. u \<in> set (unit_after (h x))"
    and ne: "units \<noteq> []"
  shows "kahn_next ord h (KahnIterator h units) = Some (Inl CycleException, KahnIterator h units)"
    and "lst (KahnIterator h units) = []"
proof -
  let ?it = "KahnIterator h units"
  note t = KahnIterator_tidy[OF reg irr, of units]
  from t(1) show l: "lst ?it = []" by (simp add: tidy_def)
  have p: "pending ?it x \<noteq> {}" if x: "x \<in> set units" for x
  proof -
    from cyc x obtain u where u: "u \<in> set units" "u \<in> set (unit_after (h x))" by blast
    with t(2) x have "u \<in> set (lst ?it) \<or> conflict h (lst ?it) u \<or> u \<in> pending ?it x"
      unfolding sound_def t(3) by blast
    then show ?thesis by (auto simp: l)
  qed
  have st: "stack ?it = []"
  proof (rule ccontr)
    assume "stack ?it \<noteq> []"
    then obtain s where s: "s \<in> set (stack ?it)" by (cases "stack ?it") auto
    with t(1) have "s \<in> set units" by (auto simp: tidy_def t(3))
    moreover from t(2) s have "pending ?it s = {}" by (simp add: sound_def)
    ultimately show False using p by blast
  qed
  have w: "\<forall>k \<in> fst ` set (after ?it). pending ?it k \<noteq> {}"
    using t(1) p by (auto simp: tidy_def t(3))
  from ne obtain x where x: "x \<in> set units" by (cases units) auto
  from p[OF x] have "after ?it \<noteq> []" by (auto simp: pending_def dd_get_def)
  with t(2) st w show "kahn_next ord h ?it = Some (Inl CycleException, ?it)"
    by (intro all_waiting_raises) (simp_all add: sound_def)
qed

lemma no_exclusive_no_conflict:
  assumes "\<forall>p\<in>set (belongs (h u)). \<not> exclusive (h p)"
  shows "\<not> conflict h produced u"
  using assms by (auto simp: conflict_def list_ex_iff)

lemma waiting_units_pending:
  assumes s: "sound h it"
    and cyc: "\<forall>x\<in>C. \<exists>u\<in>C. u \<in> set (unit_after (h x))"
    and nx: "\<forall>x\<in>C. \<forall>p\<in>set (belongs (h x)). \<not> exclusive (h p)"
    and kn: "C \<subseteq> set (nodes it)" and un: "C \<inter> set (lst it) = {}"
    and x: "x \<in> C"
  shows "pending it x \<noteq> {}"
proof -
  from cyc x obtain u where u: "u \<in> C" "u \<in> set (unit_after (h x))" by blast
  from s kn x u have "u \<in> set (lst it) \<or> conflict h (lst it) u \<or> u \<in> pending it x"
    unfolding sound_def by blast
  moreover have "u \<notin> set (lst it)" using un u(1) by blast
  moreover have "\<not> conflict h (lst it) u"
    by (rule no_exclusive_no_conflict) (use nx u(1) in blast)
  ultimately show ?thesis by blast
qed

lemma pending_refill:
  assumes "pending it x \<noteq> {}"
  shows "refill it \<noteq> Inl StopIteration"
proof -
  from assms have "dd_get (after it) x \<noteq> []" by (simp add: pending_def)
  then obtain s where m: "map_of (after it) x = Some s" and s: "s \<noteq> []"
    by (cases "map_of (after it) x") (simp_all add: dd_get_def)
  from m have i: "(x, s) \<in> set (after it)" by (rule map_of_SomeD)
  then have "after it \<noteq> []" by auto
  moreover from i s have "list_ex (\<lambda>x. x \<noteq> []) (map snd (after it))"
    by (force simp: list_ex_iff)
  ultimately show ?thesis by (simp add: refill_def)
qed

lemma kahn_next_never_stops:
  assumes "kahn_next ord h it = Some res"
  shows "sound h it \<and> (\<forall>x\<in>C. \<exists>u\<in>C. u \<in> set (unit_after (h x)))
         \<and> (\<forall>x\<in>C. \<forall>p\<in>set (belongs (h x)). \<not> exclusive (h p))
         \<and> C \<subseteq> set (nodes it) \<and> C \<inter> set (lst it) = {} \<and> C \<noteq> {}
       \<longrightarrow> fst res \<noteq> Inl StopIteration"
proof (rule kahn_next.raw_induct[where P = "\<lambda>ord h it res.
      sound h it \<and> (\<forall>x\<in>C. \<exists>u\<in>C. u \<in> set (unit_after (h x)))
         \<and> (\<forall>x\<in>C. \<forall>p\<in>set (belongs (h x)). \<not> exclusive (h p))
         \<and> C \<subseteq> set (nodes it) \<and> C \<inter> set (lst it) = {} \<and> C \<noteq> {}
       \<longrightarrow> fst res \<noteq> Inl StopIteration", OF _ assms], goal_cases)
  case (1 kahn_next' ord h it res)
  show ?case
  proof
    assume a: "sound h it \<and> (\<forall>x\<in>C. \<exists>u\<in>C. u \<in> set (unit_after (h x)))
         \<and> (\<forall>x\<in>C. \<forall>p\<in>set (belongs (h x)). \<not> exclusive (h p))
         \<and> C \<subseteq> set (nodes it) \<and> C \<inter> set (lst it) = {} \<and> C \<noteq> {}"
    then have snd: "sound h it"
      and cyc: "\<forall>x\<in>C. \<exists>u\<in>C. u \<in> set (unit_after (h x))"
      and nx: "\<forall>x\<in>C. \<forall>p\<in>set (belongs (h x)). \<not> exclusive (h p)"
      and kn: "C \<subseteq> set (nodes it)" and un: "C \<inter> set (lst it) = {}" and ne: "C \<noteq> {}"
      by blast+
    from ne obtain x where x: "x \<in> C" by blast
    note rs = pending_refill[OF waiting_units_pending[OF snd cyc nx kn un x]]
    show "fst res \<noteq> Inl StopIteration"
    proof (cases "refill it")
      case (Inl e)
      with 1(2) rs show ?thesis by auto
    next
      case (Inr it1)
      note rf = refill_Inr(1-3)[OF Inr]
      have s1: "sound h it1" by (rule sound_refill[OF Inr snd])
      from rf obtain node rest where st: "stack it1 = node # rest" by (cases "stack it1") auto
      let ?it2 = "release ord node (it1\<lparr>stack := rest\<rparr>)"
      have pr: "pop_release ord it1 = Some (node, ?it2)" by (simp add: pop_release_def st)
      have l2: "lst ?it2 = lst it" "nodes ?it2 = nodes it" by (simp_all add: release_effect rf)
      show ?thesis
      proof (cases "conflict h (lst ?it2) node")
        case True
        with 1(2) Inr pr have k: "kahn_next' ord h ?it2 = Some res" by simp
        have "sound h ?it2" using sound_pop_skip[OF s1 st] True by (simp add: l2 rf)
        with 1(1)[OF k] cyc nx kn un ne show ?thesis by (simp add: l2)
      next
        case False
        with 1(2) Inr pr have "res = (Inr node, ?it2\<lparr>lst := lst ?it2 @ [node]\<rparr>)" by auto
        then show ?thesis by simp
      qed
    qed
  qed
qed

subsection \<open>Evaluating the engine on explicit states\<close>

lemmas config_eval =
  blacklist_target_def empty_config_def Config_def first_run_def record_unit_def
  init_body_def config_init.simps resume_def exit_body_def config_exit.simps
  is_empty_def noop_def raised_or_none_def raised_or_returned_def
  finally_exit_def run_func_def run_def

subsection \<open>Scenarios on the engine\<close>

text \<open>
  C8 fails on the code. With \<open>a\<close> beside the cycle of \<open>b\<close> and \<open>c\<close>, \<^verbatim>\<open>init\<close> runs \<open>a\<close>, then
  the rescue pass of \<^verbatim>\<open>__next__\<close> finds the empty entry of \<open>a\<close> still in \<^verbatim>\<open>self.after\<close> and
  queues \<open>a\<close> again: \<open>a\<close> is produced and run a second time before the cycle is reported.
  Without any cycle: once \<open>c\<close> has run, \<open>b\<close> (before \<open>c\<close>) is added as a target; the second
  \<^verbatim>\<open>init\<close> runs \<open>b\<close> and then \<open>c\<close> again.
\<close>

theorem unit_appended_twice:
  "map_option (\<lambda>(rs, c, calls). (rs, ran_units c, calls))
     (run_engine 2 (\<lambda>xs. xs) cyclic_units
        [AddTarget Ua True, AddTarget Ub True, AddTarget Uc True, Init] (empty_config None []) [])
     = Some ([Returned None, Returned None, Returned None, Raised CycleException],
             [Ua, Ua], [Ran Ua, Ran Ua])
   \<and> map_option fst
       (run_ops (\<lambda>xs. xs) cyclic_units [Next, Next, Next] (KahnIterator cyclic_units [Ua, Ub, Uc]))
     = Some [Inr Ua, Inr Ua, Inl CycleException]
   \<and> map_option (\<lambda>(rs, c, calls). (rs, ran_units c, calls))
       (run_engine 2 (\<lambda>xs. xs) late_units
          [AddTarget Uc True, Init, AddTarget Ub True, Init] (empty_config None []) [])
     = Some ([Returned None, Returned None, Returned None, Returned None],
             [Uc, Ub, Uc], [Ran Uc, Ran Ub, Ran Uc])"
  by (simp add: numeral_2_eq_2 kahn_eval config_eval)

theorem unit_appended_twice_witness:
  "map_option (\<lambda>(rs, c, calls). distinct (ran_units c))
     (run_engine 2 (\<lambda>xs. xs) late_units
        [AddTarget Uc True, Init, AddTarget Ub True, Init] (empty_config None []) [])
     = Some False"
proof -
  from unit_appended_twice
  have "map_option (\<lambda>(rs, c, calls). (rs, ran_units c, calls))
       (run_engine 2 (\<lambda>xs. xs) late_units
          [AddTarget Uc True, Init, AddTarget Ub True, Init] (empty_config None []) [])
     = Some ([Returned None, Returned None, Returned None, Returned None],
             [Uc, Ub, Uc], [Ran Uc, Ran Ub, Ran Uc])"
    by blast
  then show ?thesis by (auto simp: map_option_case split: option.splits)
qed

subsection \<open>What \<^verbatim>\<open>exit\<close> does to the history\<close>

lemma resume_keeps:
  assumes "well_behaved h"
  shows "ran_units (snd (resume h g c)) = ran_units c"
    and "active_units (snd (resume h g c)) = active_units c"
    and "entry_point (snd (resume h g c)) = entry_point c"
proof -
  obtain u where g: "g = Generator u" by (cases g)
  have "ran_units (snd (resume h g c)) = ran_units c
      \<and> active_units (snd (resume h g c)) = active_units c
      \<and> entry_point (snd (resume h g c)) = entry_point c"
    using assms[unfolded well_behaved_def, rule_format, of u]
    by (auto simp: g resume_def keeps_history_def split: option.splits action.splits)
  then show "ran_units (snd (resume h g c)) = ran_units c"
    and "active_units (snd (resume h g c)) = active_units c"
    and "entry_point (snd (resume h g c)) = entry_point c" by simp_all
qed

lemma exit_round:
  assumes wb: "well_behaved h"
    and hist: "ran_units c = hist @ [u]"
    and act: "map_of (active_units c) u = Some inst"
    and ep: "Some u \<noteq> entry_point c"
    and td: "\<And>g. inst = Some g \<Longrightarrow> \<not> is_empty (h u) \<Longrightarrow> teardown_completes h g"
  shows "\<exists>c1. exit_body h c calls
                = Inr (c1, calls @ (if has_generator h c u then [Resumed u] else []))
      \<and> ran_units c1 = hist \<and> entry_point c1 = entry_point c
      \<and> map_of (active_units c1) = (map_of (active_units c))(u := None)"
proof (cases "is_empty (h u) \<or> inst = None")
  case True
  then have "\<not> has_generator h c u"
    by (auto simp: has_generator_def act split: option.splits)
  moreover from True have "(if is_empty (h u) then None else inst) = None" by auto
  ultimately show ?thesis
    using hist act ep by (simp add: exit_body_def AList.delete_conv')
next
  case False
  then obtain g where g: "inst = Some g" and ne: "\<not> is_empty (h u)" by auto
  then have hg: "has_generator h c u" by (simp add: has_generator_def act)
  let ?c0 = "c\<lparr>ran_units := hist\<rparr>"
  obtain r c' where r: "resume h g ?c0 = (r, c')" by (cases "resume h g ?c0")
  have k: "ran_units c' = hist" "active_units c' = active_units c"
      "entry_point c' = entry_point c"
    using resume_keeps[OF wb, of g ?c0] by (simp_all add: r)
  have dom: "u \<in> fst ` set (active_units c')"
    using act k(2) by (metis domI dom_map_of_conv_image_fst)
  have stop: "\<And>e. r = Inl e \<Longrightarrow> e = StopIteration"
    using td[OF g ne] r by (auto simp: teardown_completes_def dest: spec[where x = ?c0])
  show ?thesis
    using hist act ep ne g hg r k dom stop
    by (cases r) (auto simp: exit_body_def AList.delete_conv')
qed

lemma exit_suffix:
  assumes wb: "well_behaved h"
  shows "\<lbrakk>ran_units c = pre @ post; distinct post;
          \<forall>u\<in>set post. Some u \<noteq> entry_point c \<and> can_tear_down h c u\<rbrakk>
     \<Longrightarrow> \<exists>c1. config_exit h c calls
                = config_exit h c1 (calls @ map Resumed (filter (has_generator h c) (rev post)))
          \<and> ran_units c1 = pre \<and> entry_point c1 = entry_point c
          \<and> (\<forall>k. k \<notin> set post \<longrightarrow> map_of (active_units c1) k = map_of (active_units c) k)
          \<and> (\<forall>k\<in>set post. map_of (active_units c1) k = None)"
proof (induction post arbitrary: c calls rule: rev_induct)
  case Nil
  then show ?case by auto
next
  case (snoc x xs)
  from snoc.prems(3) obtain inst where act: "map_of (active_units c) x = Some inst"
    and td: "\<And>g. inst = Some g \<Longrightarrow> \<not> is_empty (h x) \<Longrightarrow> teardown_completes h g"
    and ep: "Some x \<noteq> entry_point c"
    by (auto simp: can_tear_down_def)
  from snoc.prems(1) have hist: "ran_units c = (pre @ xs) @ [x]" by simp
  let ?calls1 = "calls @ (if has_generator h c x then [Resumed x] else [])"
  from exit_round[OF wb hist act ep td, of calls]
  obtain c1 where b: "exit_body h c calls = Inr (c1, ?calls1)"
    and r1: "ran_units c1 = pre @ xs" and e1: "entry_point c1 = entry_point c"
    and a1: "map_of (active_units c1) = (map_of (active_units c))(x := None)"
    by blast
  have step: "config_exit h c calls = config_exit h c1 ?calls1"
    by (subst config_exit.simps) (simp add: b)
  from snoc.prems(2) have dx: "distinct xs" and xn: "x \<notin> set xs" by auto
  have same: "\<And>u. u \<in> set xs \<Longrightarrow> map_of (active_units c1) u = map_of (active_units c) u"
    using xn by (auto simp: a1)
  have p3: "\<forall>u\<in>set xs. Some u \<noteq> entry_point c1 \<and> can_tear_down h c1 u"
    using snoc.prems(3) same by (auto simp: e1 can_tear_down_def)
  from snoc.IH[OF r1 dx p3, of ?calls1]
  obtain c2 where
    x2: "config_exit h c1 ?calls1
           = config_exit h c2 (?calls1 @ map Resumed (filter (has_generator h c1) (rev xs)))"
    and r2: "ran_units c2 = pre" and e2: "entry_point c2 = entry_point c1"
    and a2: "\<forall>k. k \<notin> set xs \<longrightarrow> map_of (active_units c2) k = map_of (active_units c1) k"
    and n2: "\<forall>k\<in>set xs. map_of (active_units c2) k = None"
    by blast
  have f: "filter (has_generator h c1) (rev xs) = filter (has_generator h c) (rev xs)"
    by (rule filter_cong) (auto simp: has_generator_def same)
  have "config_exit h c calls
          = config_exit h c2 (calls @ map Resumed (filter (has_generator h c) (rev (xs @ [x]))))"
    using step x2 by (simp add: f)
  moreover have "\<forall>k. k \<notin> set (xs @ [x])
                   \<longrightarrow> map_of (active_units c2) k = map_of (active_units c) k"
    using a2 by (auto simp: a1)
  moreover have "\<forall>k\<in>set (xs @ [x]). map_of (active_units c2) k = None"
    using n2 a2 xn by (auto simp: a1)
  ultimately show ?case using r2 e2 e1 by (intro exI[where x = c2]) simp
qed

subsection \<open>The units of the scenarios are well behaved\<close>

lemmas unit_eval = provides_def sets_def breaks_def stops_def

lemma well_behaved_chain:
  assumes "\<And>u. acts u \<in> {None, Some stops} \<union> (\<lambda>k. Some (provides k)) ` UNIV
              \<union> (\<lambda>k. Some (sets k)) ` UNIV \<union> (\<lambda>k. Some (breaks k)) ` UNIV"
  shows "well_behaved (chain_units acts)"
  unfolding well_behaved_def
proof
  fix u
  show "case unit_func (chain_units acts u) of
             Some (Function f) \<Rightarrow> keeps_history f
           | Some (GeneratorFunction f g) \<Rightarrow> keeps_history f \<and> keeps_history g
           | _ \<Rightarrow> True"
    using assms[of u] by (cases u) (auto simp: unit_eval keeps_history_def)
qed

lemma teardown_completes_provides:
  "unit_func (h u) = Some (provides k) \<Longrightarrow> teardown_completes h (Generator u)"
  by (simp add: teardown_completes_def resume_def provides_def)

subsection \<open>A teardown phase that raises\<close>

lemma well_behaved_failing: "well_behaved (chain_units failing_acts)"
proof (rule well_behaved_chain)
  fix u show "failing_acts u \<in> {None, Some stops} \<union> (\<lambda>k. Some (provides k)) ` UNIV
              \<union> (\<lambda>k. Some (sets k)) ` UNIV \<union> (\<lambda>k. Some (breaks k)) ` UNIV"
    by (cases u) auto
qed

lemma failing_init:
  "run_engine 4 (\<lambda>xs. xs) (chain_units failing_acts) [AddTarget Ud True, Init]
       (empty_config (Some ''main'') []) []
     = Some ([Returned None, Returned None], failing_config, [Ran Ua, Ran Ub, Ran Uc, Ran Ud])"
  by (simp add: eval_nat_numeral kahn_eval config_eval unit_eval failing_config_def)

text \<open>
  C9, as stated, fails. \<^verbatim>\<open>init\<close> runs the chain \<open>a\<close>, \<open>b\<close>, \<open>c\<close>, \<open>d\<close> of two-phase units; the
  teardown phase of \<open>c\<close> raises. \<^verbatim>\<open>exit\<close> resumes \<open>d\<close>, then \<open>c\<close>, and raises the exception of
  \<open>c\<close>: \<open>a\<close> and \<open>b\<close> are not resumed, they stay in the history and in \<^verbatim>\<open>active_units\<close>, and
  their variables stay set.
\<close>

theorem failing_teardown_ends_exit:
  "map_option (\<lambda>(rs, c, calls). (rs, ran_units c, map fst (active_units c), variables c, calls))
     (run_engine 4 (\<lambda>xs. xs) (chain_units failing_acts) [AddTarget Ud True, Init, Exit]
        (empty_config (Some ''main'') []) [])
     = Some ([Returned None, Returned None, Raised (Exception ''boom'')],
             [Ua, Ub], [Ua, Ub, Uc], [(''a'', ''up''), (''b'', ''up''), (''c'', ''up'')],
             [Ran Ua, Ran Ub, Ran Uc, Ran Ud, Resumed Ud, Resumed Uc])"
  by (simp add: eval_nat_numeral kahn_eval config_eval unit_eval)

text \<open>
  C9, amended. \<^verbatim>\<open>exit\<close> swallows \<^verbatim>\<open>StopIteration\<close> only. When the units appended after
  \<open>u\<close> are torn down normally and resuming the instance of \<open>u\<close> raises another exception,
  \<^verbatim>\<open>exit\<close> raises that exception once it has resumed \<open>u\<close>: the units appended before \<open>u\<close>
  are not resumed, and they stay in the history and in \<^verbatim>\<open>active_units\<close>.
\<close>

theorem failing_teardown_propagates:
  assumes wb: "well_behaved h"
    and hist: "ran_units c = pre @ u # post"
    and d: "distinct (u # post)"
    and ep: "\<forall>v\<in>set (u # post). Some v \<noteq> entry_point c"
    and ok: "\<forall>v\<in>set post. can_tear_down h c v"
    and inst: "map_of (active_units c) u = Some (Some g)"
    and ne: "\<not> is_empty (h u)"
    and raises: "\<forall>c'. fst (resume h g c') = Inl e"
    and e: "e \<noteq> StopIteration"
  shows "\<exists>c'. config_exit h c calls
           = Some (Some e, c',
               calls @ map Resumed (filter (has_generator h c) (rev post)) @ [Resumed u])
       \<and> ran_units c' = pre
       \<and> (\<forall>k. k \<notin> set post \<longrightarrow> map_of (active_units c') k = map_of (active_units c) k)"
proof -
  let ?calls1 = "calls @ map Resumed (filter (has_generator h c) (rev post))"
  from hist have h1: "ran_units c = (pre @ [u]) @ post" by simp
  from d have dp: "distinct post" and un: "u \<notin> set post" by auto
  from ep ok have p3: "\<forall>v\<in>set post. Some v \<noteq> entry_point c \<and> can_tear_down h c v" by simp
  from exit_suffix[OF wb h1 dp p3, of calls]
  obtain c1 where x1: "config_exit h c calls = config_exit h c1 ?calls1"
    and r1: "ran_units c1 = pre @ [u]" and e1: "entry_point c1 = entry_point c"
    and a1: "\<forall>k. k \<notin> set post \<longrightarrow> map_of (active_units c1) k = map_of (active_units c) k"
    by blast
  have act: "map_of (active_units c1) u = Some (Some g)" using a1 un inst by simp
  let ?c0 = "c1\<lparr>ran_units := pre\<rparr>"
  obtain c' where r: "resume h g ?c0 = (Inl e, c')"
    using raises[rule_format, of ?c0] by (cases "resume h g ?c0") simp
  have k: "ran_units c' = pre" "active_units c' = active_units c1"
    using resume_keeps[OF wb, of g ?c0] by (simp_all add: r)
  have nep: "Some u \<noteq> entry_point c" using ep by simp
  have "exit_body h c1 ?calls1 = Inl (Some e, c', ?calls1 @ [Resumed u])"
    using r1 act nep ne r e by (simp add: exit_body_def e1)
  then have "config_exit h c1 ?calls1 = Some (Some e, c', ?calls1 @ [Resumed u])"
    by (subst config_exit.simps) simp
  with x1 k a1 show ?thesis by (intro exI[where x = c']) simp
qed

theorem failing_teardown_propagates_witness:
  "well_behaved (chain_units failing_acts)
   \<and> ran_units failing_config = [Ua, Ub] @ Uc # [Ud]
   \<and> distinct (Uc # [Ud])
   \<and> entry_point failing_config = None
   \<and> can_tear_down (chain_units failing_acts) failing_config Ud
   \<and> map_of (active_units failing_config) Uc = Some (Some (Generator Uc))
   \<and> \<not> is_empty (chain_units failing_acts Uc)
   \<and> (\<forall>c'. fst (resume (chain_units failing_acts) (Generator Uc) c') = Inl (Exception ''boom''))
   \<and> Exception ''boom'' \<noteq> StopIteration
   \<and> (\<exists>c'. config_exit (chain_units failing_acts) failing_config []
              = Some (Some (Exception ''boom''), c', [Resumed Ud, Resumed Uc])
         \<and> ran_units c' = [Ua, Ub]
         \<and> map_of (active_units c') Ua = Some (Some (Generator Ua))
         \<and> map_of (active_units c') Ub = Some (Some (Generator Ub)))"
proof -
  let ?h = "chain_units failing_acts"
  have wb: "well_behaved ?h" by (rule well_behaved_failing)
  have hist: "ran_units failing_config = [Ua, Ub] @ Uc # [Ud]" by (simp add: failing_config_def)
  have d: "distinct (Uc # [Ud])" by simp
  have en: "entry_point failing_config = None" by (simp add: failing_config_def)
  then have ep: "\<forall>v\<in>set (Uc # [Ud]). Some v \<noteq> entry_point failing_config" by simp
  have c: "can_tear_down ?h failing_config Ud"
    by (simp add: can_tear_down_def failing_config_def teardown_completes_provides)
  then have ok: "\<forall>v\<in>set [Ud]. can_tear_down ?h failing_config v" by simp
  have inst: "map_of (active_units failing_config) Uc = Some (Some (Generator Uc))"
    by (simp add: failing_config_def)
  have ne: "\<not> is_empty (?h Uc)" by (simp add: is_empty_def)
  have raises: "\<forall>c'. fst (resume ?h (Generator Uc) c') = Inl (Exception ''boom'')"
    by (simp add: resume_def breaks_def)
  have e: "Exception ''boom'' \<noteq> StopIteration" by simp
  have f: "filter (has_generator ?h failing_config) (rev [Ud]) = [Ud]"
    by (simp add: has_generator_def failing_config_def is_empty_def)
  from failing_teardown_propagates[OF wb hist d ep ok inst ne raises e, of "[]"]
  obtain c' where x: "config_exit ?h failing_config []
              = Some (Some (Exception ''boom''), c', [Resumed Ud, Resumed Uc])"
    and r: "ran_units c' = [Ua, Ub]"
    and a: "\<forall>k. k \<notin> set [Ud] \<longrightarrow> map_of (active_units c') k = map_of (active_units failing_config) k"
    unfolding f by auto
  have "map_of (active_units c') Ua = Some (Some (Generator Ua))"
    "map_of (active_units c') Ub = Some (Some (Generator Ub))"
    using a by (simp_all add: failing_config_def)
  with wb hist d en c inst ne raises e x r show ?thesis by blast
qed

subsection \<open>A copy and its original\<close>

lemmas ref_eval =
  empty_kahn_ref_def rd_get_def rd_add_def rd_discard_def KahnIterator_ref_def copy_ref_def
  release_step_ref_def release_ref_def kahn_next_ref.simps view_def set_add_def conflict_def
  join_original_def join_objects_def

text \<open>
  C5 fails on the code. \<open>c\<close> waits for \<open>a\<close> and \<open>b\<close>. The iterator is copied before anything
  is produced, and \<^verbatim>\<open>next\<close> is called twice on the copy, which returns \<open>a\<close> and \<open>b\<close>. Both
  calls remove a unit from the set \<^verbatim>\<open>after[c]\<close>, which the original holds as well: in the
  original, untouched, \<^verbatim>\<open>after[c]\<close> has gone from \<open>{a, b}\<close> to the empty set. The original,
  which on its own returns \<open>a\<close>, \<open>b\<close>, \<open>c\<close> and then raises \<^verbatim>\<open>StopIteration\<close>, now queues \<open>c\<close>
  once when it returns \<open>a\<close> and once more when it returns \<open>b\<close>, and returns \<open>c\<close> twice.
\<close>

theorem copy_shares_set_objects:
  "KahnIterator_ref join_nodes [Ua, Ub, Uc] [] = (join_original, join_objects)
   \<and> view join_objects join_original = KahnIterator join_nodes [Ua, Ub, Uc]
   \<and> map_option (\<lambda>(rs, cp, objs). (rs, objs))
       (nexts_ref 2 (\<lambda>xs. xs) join_nodes (copy_ref join_original, join_objects))
       = Some ([Inr Ua, Inr Ub], [[Uc], [], [Uc], [], []])
   \<and> after (view join_objects join_original) = [(Ua, []), (Ub, []), (Uc, [Ua, Ub])]
   \<and> after (view [[Uc], [], [Uc], [], []] join_original) = [(Ua, []), (Ub, []), (Uc, [])]
   \<and> map_option fst (nexts_ref 4 (\<lambda>xs. xs) join_nodes (join_original, join_objects))
       = Some [Inr Ua, Inr Ub, Inr Uc, Inl StopIteration]
   \<and> map_option fst
       (nexts_ref 4 (\<lambda>xs. xs) join_nodes (join_original, [[Uc], [], [Uc], [], []]))
       = Some [Inr Ua, Inr Ub, Inr Uc, Inr Uc]"
proof (intro conjI)
  show "KahnIterator_ref join_nodes [Ua, Ub, Uc] [] = (join_original, join_objects)"
    by (simp add: ref_eval eval_nat_numeral)
  show "view join_objects join_original = KahnIterator join_nodes [Ua, Ub, Uc]"
    by (simp add: ref_eval kahn_eval eval_nat_numeral)
  show "map_option (\<lambda>(rs, cp, objs). (rs, objs))
       (nexts_ref 2 (\<lambda>xs. xs) join_nodes (copy_ref join_original, join_objects))
       = Some ([Inr Ua, Inr Ub], [[Uc], [], [Uc], [], []])"
    by (simp add: ref_eval eval_nat_numeral)
  show "after (view join_objects join_original) = [(Ua, []), (Ub, []), (Uc, [Ua, Ub])]"
    by (simp add: ref_eval eval_nat_numeral)
  show "after (view [[Uc], [], [Uc], [], []] join_original) = [(Ua, []), (Ub, []), (Uc, [])]"
    by (simp add: ref_eval eval_nat_numeral)
  show "map_option fst (nexts_ref 4 (\<lambda>xs. xs) join_nodes (join_original, join_objects))
       = Some [Inr Ua, Inr Ub, Inr Uc, Inl StopIteration]"
    by (simp add: ref_eval eval_nat_numeral)
  show "map_option fst
       (nexts_ref 4 (\<lambda>xs. xs) join_nodes (join_original, [[Uc], [], [Uc], [], []]))
       = Some [Inr Ua, Inr Ub, Inr Uc, Inr Uc]"
    by (simp add: ref_eval eval_nat_numeral)
qed

theorem copy_shares_set_objects_witness:
  "after (view [[Uc], [], [Uc], [], []] join_original) \<noteq> after (view join_objects join_original)"
proof -
  from copy_shares_set_objects
  have "after (view join_objects join_original) = [(Ua, []), (Ub, []), (Uc, [Ua, Ub])]"
    and "after (view [[Uc], [], [Uc], [], []] join_original) = [(Ua, []), (Ub, []), (Uc, [])]"
    by blast+
  then show ?thesis by simp
qed

subsection \<open>Selecting a member of an exclusive group\<close>

text \<open>
  C3 fails on the code. \<open>x\<close> and \<open>y\<close> are the members of the exclusive group \<open>g\<close>.
  \<^verbatim>\<open>Config(targets=[x])\<close>, that is \<^verbatim>\<open>add_target(x, force=True)\<close> on a new config, selects \<open>x\<close>
  and its dependency \<open>z\<close> and then calls \<^verbatim>\<open>remove_node(y)\<close> for the other member of the
  group. \<open>y\<close> was never added to the iterator, and \<^verbatim>\<open>self.nodes.remove(y)\<close>, the one statement
  of \<^verbatim>\<open>remove_node\<close> without a guard, raises \<^verbatim>\<open>KeyError\<close> before \<^verbatim>\<open>blacklist_target(y)\<close> is
  reached: nothing is blacklisted. With the exception caught, \<^verbatim>\<open>add_target(y)\<close> selects \<open>y\<close>
  as well, adds it to the iterator, and removes and blacklists \<open>x\<close>: both members of the
  group are in \<^verbatim>\<open>targets\<close>.
\<close>

theorem exclusive_selection_raises_KeyError:
  "map_option (\<lambda>(r, c). (r, targets c, blacklisted_targets c))
     (Config 2 (\<lambda>xs. xs) group_units None [] [Ux])
     = Some (Some KeyError, [Ux, Uz], [])
   \<and> map_option (\<lambda>(rs, c, calls). (rs, targets c, blacklisted_targets c, nodes (unit_iterator c)))
       (run_engine 2 (\<lambda>xs. xs) group_units [AddTarget Ux True] (empty_config None []) [])
     = Some ([Raised KeyError], [Ux, Uz], [], [Ux, Uz])
   \<and> map_option (\<lambda>(rs, c, calls). (rs, targets c, blacklisted_targets c, nodes (unit_iterator c)))
       (run_engine 2 (\<lambda>xs. xs) group_units [AddTarget Ux True, AddTarget Uy True]
          (empty_config None []) [])
     = Some ([Raised KeyError, Returned None], [Ux, Uz, Uy], [Ux], [Uz, Uy])"
  by (simp add: numeral_2_eq_2 kahn_eval config_eval)

theorem exclusive_selection_raises_KeyError_witness:
  "map_option (\<lambda>(rs, c, calls). (Uy \<in> set (blacklisted_targets c), Uy \<in> set (targets c)))
       (run_engine 2 (\<lambda>xs. xs) group_units [AddTarget Ux True, AddTarget Uy True]
          (empty_config None []) [])
     = Some (False, True)"
proof -
  from exclusive_selection_raises_KeyError
  have "map_option (\<lambda>(rs, c, calls). (rs, targets c, blacklisted_targets c, nodes (unit_iterator c)))
       (run_engine 2 (\<lambda>xs. xs) group_units [AddTarget Ux True, AddTarget Uy True]
          (empty_config None []) [])
     = Some ([Raised KeyError, Returned None], [Ux, Uz, Uy], [Ux], [Uz, Uy])"
    by blast
  then show ?thesis by (auto simp: map_option_case split: option.splits)
qed

subsection \<open>\<^verbatim>\<open>exit\<close> on a history that \<^verbatim>\<open>init\<close> built\<close>

text \<open>
  C4 fails on the code, through the defect of C8. \<open>d\<close>, \<open>c\<close> and \<open>b\<close> are two-phase units,
  \<open>b\<close> before \<open>c\<close>. \<^verbatim>\<open>init\<close> runs \<open>d\<close> and \<open>c\<close>; \<open>b\<close> is then added as a target, and the
  second \<^verbatim>\<open>init\<close> runs \<open>b\<close> and runs \<open>c\<close> again: the history is \<open>d, c, b, c\<close>, and the second
  instance of \<open>c\<close> has replaced the first in \<^verbatim>\<open>active_units\<close>. \<^verbatim>\<open>exit\<close> resumes \<open>c\<close> and \<open>b\<close>,
  whose teardown phases remove their variables, and deletes their entries; for the first
  \<open>c\<close> of the history \<^verbatim>\<open>self.active_units[unit]\<close> then raises \<^verbatim>\<open>KeyError\<close>. \<open>d\<close> is never
  resumed: it stays in the history and in \<^verbatim>\<open>active_units\<close>, and its variable stays set.
\<close>

theorem exit_raises_on_rerun_unit:
  "map_option (\<lambda>(rs, c, calls). (rs, ran_units c, map fst (active_units c), variables c, calls))
     (run_engine 2 (\<lambda>xs. xs) rerun_units
        [AddTarget Ud True, AddTarget Uc True, Init, AddTarget Ub True, Init]
        (empty_config (Some ''main'') []) [])
     = Some ([Returned None, Returned None, Returned None, Returned None, Returned None],
             [Ud, Uc, Ub, Uc], [Ud, Uc, Ub],
             [(''d'', ''up''), (''c'', ''up''), (''b'', ''up'')],
             [Ran Ud, Ran Uc, Ran Ub, Ran Uc])
   \<and> map_option (\<lambda>(rs, c, calls). (rs, ran_units c, map fst (active_units c), variables c, calls))
       (run_engine 2 (\<lambda>xs. xs) rerun_units
          [AddTarget Ud True, AddTarget Uc True, Init, AddTarget Ub True, Init, Exit]
          (empty_config (Some ''main'') []) [])
     = Some ([Returned None, Returned None, Returned None, Returned None, Returned None,
              Raised KeyError],
             [Ud], [Ud], [(''d'', ''up'')],
             [Ran Ud, Ran Uc, Ran Ub, Ran Uc, Resumed Uc, Resumed Ub])"
  by (simp add: numeral_2_eq_2 kahn_eval config_eval unit_eval)

theorem exit_raises_on_rerun_unit_witness:
  "map_option (\<lambda>(rs, c, calls). (last rs, Resumed Ud \<in> set calls, variables c))
       (run_engine 2 (\<lambda>xs. xs) rerun_units
          [AddTarget Ud True, AddTarget Uc True, Init, AddTarget Ub True, Init, Exit]
          (empty_config (Some ''main'') []) [])
     = Some (Raised KeyError, False, [(''d'', ''up'')])"
proof -
  from exit_raises_on_rerun_unit
  have "map_option (\<lambda>(rs, c, calls). (rs, ran_units c, map fst (active_units c), variables c, calls))
       (run_engine 2 (\<lambda>xs. xs) rerun_units
          [AddTarget Ud True, AddTarget Uc True, Init, AddTarget Ub True, Init, Exit]
          (empty_config (Some ''main'') []) [])
     = Some ([Returned None, Returned None, Returned None, Returned None, Returned None,
              Raised KeyError],
             [Ud], [Ud], [(''d'', ''up'')],
             [Ran Ud, Ran Uc, Ran Ub, Ran Uc, Resumed Uc, Resumed Ub])"
    by blast
  then show ?thesis by (auto simp: map_option_case split: option.splits)
qed

subsection \<open>A unit that stops \<^verbatim>\<open>init\<close>\<close>

text \<open>
  C7 fails on the code, through the defect of C8. On the config of the previous scenario
  the unit \<open>a\<close>, which is after \<open>b\<close> and raises \<^verbatim>\<open>StopInitException\<close>, is added as a target
  before \<open>b\<close>. The second \<^verbatim>\<open>init\<close> runs \<open>b\<close>, runs \<open>c\<close> again, and runs \<open>a\<close>: it returns
  \<^verbatim>\<open>None\<close> with \<^verbatim>\<open>func\<close> cleared, \<open>a\<close> is not in the history, and the history is
  \<open>d, c, b, c\<close>. \<^verbatim>\<open>exit\<close> resumes \<open>c\<close> and \<open>b\<close> and raises \<^verbatim>\<open>KeyError\<close> at the first \<open>c\<close>; \<open>d\<close>,
  which ran before the unit that stopped \<^verbatim>\<open>init\<close>, is not torn down. \<^verbatim>\<open>run\<close> on that
  config calls neither a wrapper nor \<^verbatim>\<open>func\<close> and raises the \<^verbatim>\<open>KeyError\<close> of \<^verbatim>\<open>exit\<close>.
\<close>

theorem exit_raises_after_stop_init:
  "map_option (\<lambda>(rs, c, calls). (c, calls))
     (run_engine 2 (\<lambda>xs. xs) rerun_units
        [AddTarget Ud True, AddTarget Uc True, Init, AddTarget Ua True, AddTarget Ub True]
        (empty_config (Some ''main'') []) [])
     = Some (rerun_config, [Ran Ud, Ran Uc])
   \<and> map_option (\<lambda>(r, c, calls). (r, func c, ran_units c, variables c, calls))
       (config_init (\<lambda>xs. xs) rerun_units rerun_config [Ran Ud, Ran Uc])
     = Some (Inr None, None, [Ud, Uc, Ub, Uc],
             [(''d'', ''up''), (''c'', ''up''), (''b'', ''up'')],
             [Ran Ud, Ran Uc, Ran Ub, Ran Uc, Ran Ua])
   \<and> map_option (\<lambda>(rs, c, calls). (rs, func c, ran_units c, map fst (active_units c),
                                     variables c, calls))
       (run_engine 2 (\<lambda>xs. xs) rerun_units [Init, Exit] rerun_config [Ran Ud, Ran Uc])
     = Some ([Returned None, Raised KeyError], None, [Ud], [Ud], [(''d'', ''up'')],
             [Ran Ud, Ran Uc, Ran Ub, Ran Uc, Ran Ua, Resumed Uc, Resumed Ub])
   \<and> map_option (\<lambda>(r, c, calls). (r, func c, ran_units c, map fst (active_units c),
                                    variables c, calls))
       (run (\<lambda>xs. xs) rerun_units plain_python rerun_config [Ran Ud, Ran Uc])
     = Some (Some KeyError, None, [Ud], [Ud], [(''d'', ''up'')],
             [Ran Ud, Ran Uc, Ran Ub, Ran Uc, Ran Ua, Resumed Uc, Resumed Ub])"
  by (simp add: numeral_2_eq_2 kahn_eval config_eval unit_eval rerun_config_def plain_python_def)

theorem exit_raises_after_stop_init_witness:
  "map_option (\<lambda>(r, c, calls). (r, Resumed Ud \<in> set calls, ran_units c))
       (run (\<lambda>xs. xs) rerun_units plain_python rerun_config [Ran Ud, Ran Uc])
     = Some (Some KeyError, False, [Ud])"
proof -
  from exit_raises_after_stop_init
  have "map_option (\<lambda>(r, c, calls). (r, func c, ran_units c, map fst (active_units c),
                                    variables c, calls))
       (run (\<lambda>xs. xs) rerun_units plain_python rerun_config [Ran Ud, Ran Uc])
     = Some (Some KeyError, None, [Ud], [Ud], [(''d'', ''up'')],
             [Ran Ud, Ran Uc, Ran Ub, Ran Uc, Ran Ua, Resumed Uc, Resumed Ub])"
    by blast
  then show ?thesis by (auto simp: map_option_case split: option.splits)
qed

end
